theory Spec2Isabelle
  imports Complex_Main "HOL-Library.Char_ord" "HOL-Library.List_Lexorder" "HOL-Library.Multiset"
begin

section \<open>JavaScript values\<close>

text \<open>
  The router is JavaScript. A value that the code only tests for truthiness, for being a
  function, or for being a \<^verbatim>\<open>Response\<close> is one of the constructors below. An HTTP
  response is the record of what the code reads from it: \<^verbatim>\<open>response.ok\<close>, the headers
  (\<^verbatim>\<open>Headers\<close> keeps the names in lower case) and the body that \<^verbatim>\<open>json()\<close> and
  \<^verbatim>\<open>text()\<close> decode.
\<close>

record response =
  ok :: bool
  headers :: "(string \<times> string) list"
  body :: string

datatype val =
    Undefined
  | Null
  | Bool bool
  | Num int
  | Str string
  | Object string
  | Response response
  | Error string

text \<open>What awaiting a promise gives: its value, the reason it rejects with, or nothing
  (the promise never settles).\<close>

datatype 'a outcome = Fulfilled 'a | Rejected val | Pending

text \<open>
  A function value is a function of the application, known by its name, or one of the two
  closures of \<^verbatim>\<open>config.js\<close>: \<^verbatim>\<open>createConfigLoader(prefix, level)\<close> and
  \<^verbatim>\<open>createConfigAction(prefix)\<close>.
\<close>

datatype fn = User string | ConfigLoader string nat | ConfigAction string

text \<open>A \<^verbatim>\<open>loader\<close> or \<^verbatim>\<open>action\<close> property: a function, a plain value, or a promise.\<close>

datatype handler = Fn fn | Value val | Promise "val outcome"

fun truthy :: "val \<Rightarrow> bool" where
  "truthy Undefined = False"
| "truthy Null = False"
| "truthy (Bool b) = b"
| "truthy (Num n) = (n \<noteq> 0)"
| "truthy (Str s) = (s \<noteq> [])"
| "truthy (Object _) = True"
| "truthy (Response _) = True"
| "truthy (Error _) = True"

text \<open>A property that is absent reads as \<^verbatim>\<open>undefined\<close>: \<open>None\<close>.\<close>

fun truthy_handler :: "handler option \<Rightarrow> bool" where
  "truthy_handler None = False"
| "truthy_handler (Some (Fn _)) = True"
| "truthy_handler (Some (Value v)) = truthy v"
| "truthy_handler (Some (Promise _)) = True"

fun truthy_bool :: "bool option \<Rightarrow> bool" where
  "truthy_bool None = False"
| "truthy_bool (Some b) = b"

section \<open>config.js: the raw route tree and the compiled configuration\<close>

datatype etype = Redirect | Component string

datatype redirect_to = To_path string | To_function string

record props =
  path :: "string option"
  root :: "bool option"
  to :: "redirect_to option"
  status :: "nat option"
  loader :: "handler option"
  action :: "handler option"

text \<open>
  A raw element is a text node (a string) or a React element with its \<^verbatim>\<open>type\<close> and
  \<^verbatim>\<open>props\<close>. The code makes two observations of \<^verbatim>\<open>props.children\<close>: whether it is truthy
  (\<^verbatim>\<open>children && ...\<close>), and the array \<^verbatim>\<open>childrenToArray(children)\<close>. The helper
  \<^verbatim>\<open>childrenToArray\<close> (\<^verbatim>\<open>children.js\<close>) is not among the sources, so an element carries
  both observations: the third component is the truthiness of \<^verbatim>\<open>props.children\<close>, the
  fourth is \<^verbatim>\<open>childrenToArray(props.children)\<close>. A route written without children has
  \<open>False\<close> and \<open>[]\<close>; a route with child routes has \<open>True\<close> and the children.
\<close>

datatype element = Text string | Element etype props bool "element list"

text \<open>
  The two object literals that the compiler returns: the one of a \<^verbatim>\<open>Redirect\<close> has the
  keys \<^verbatim>\<open>type, path, to, status, action\<close>, the other one
  \<^verbatim>\<open>type, path, root, status, loader, action, children\<close>.
\<close>

datatype config =
    Config etype "string option" "bool option" "nat option"
      "handler option" "handler option" "config list option"
  | RedirectConfig etype "string option" "redirect_to option" "nat option" "handler option"

fun config_type :: "config \<Rightarrow> etype" where
  "config_type (Config t _ _ _ _ _ _) = t"
| "config_type (RedirectConfig t _ _ _ _) = t"

fun config_path :: "config \<Rightarrow> string option" where
  "config_path (Config _ p _ _ _ _ _) = p"
| "config_path (RedirectConfig _ p _ _ _) = p"

fun config_loader :: "config \<Rightarrow> handler option" where
  "config_loader (Config _ _ _ _ l _ _) = l"
| "config_loader (RedirectConfig _ _ _ _ _) = None"

fun config_action :: "config \<Rightarrow> handler option" where
  "config_action (Config _ _ _ _ _ a _) = a"
| "config_action (RedirectConfig _ _ _ _ a) = a"

fun config_children :: "config \<Rightarrow> config list option" where
  "config_children (Config _ _ _ _ _ _ cs) = cs"
| "config_children (RedirectConfig _ _ _ _ _) = None"

datatype error = RouterConfigError string | TypeError string

fun isRouterConfigError :: "error \<Rightarrow> bool" where
  "isRouterConfigError (RouterConfigError _) = True"
| "isRouterConfigError (TypeError _) = False"

text \<open>A line of output: \<^verbatim>\<open>console.warn(message)\<close>, or
  \<^verbatim>\<open>configConsole.warn(message, rootElement, elements)\<close>.\<close>

datatype warning = Console string | ConfigConsole string "element option" "element list"

text \<open>
  What the functions nested in \<^verbatim>\<open>createConfig\<close> see: its arguments \<^verbatim>\<open>rootElement\<close> and
  \<^verbatim>\<open>prefix\<close>, the build flag \<^verbatim>\<open>import.meta.env.DEV\<close>, and the imported helpers of
  \<^verbatim>\<open>path.js\<close> and \<^verbatim>\<open>descriptor.js\<close>, which are not among the sources and are taken as
  they come. \<^verbatim>\<open>pathParts(path)\<close> is an array whose entries may be \<^verbatim>\<open>undefined\<close>;
  \<^verbatim>\<open>descriptorScore\<close> gives a number, here a value of an ordered type. The last
  component is the order in which the engine that runs the code leaves an array when
  \<^verbatim>\<open>sort\<close> is called with a comparator for which the language fixes no order.
\<close>

record ('s, 'd) scope =
  DEV :: bool
  prefix :: string
  rootElement :: "element option"
  pathParts :: "string \<Rightarrow> string option list"
  resolvePaths :: "string \<Rightarrow> string option \<Rightarrow> string"
  joinPaths :: "string \<Rightarrow> string \<Rightarrow> string"
  descriptorScore :: "string option \<Rightarrow> 's"
  descriptorStructure :: "string \<Rightarrow> 'd"
  equivalentDescriptors :: "'d \<Rightarrow> 'd \<Rightarrow> bool"
  engine_sort :: "(element \<Rightarrow> element \<Rightarrow> int) \<Rightarrow> element list \<Rightarrow> element list"

text \<open>The state that compilation changes: the array \<^verbatim>\<open>duplicates\<close> of
  \<^verbatim>\<open>{element, structure}\<close> and the warnings printed so far.\<close>

record 'd state =
  duplicates :: "(element \<times> 'd) list"
  warnings :: "warning list"

definition warn :: "warning \<Rightarrow> 'd state \<Rightarrow> 'd state" where
  "warn w st = st\<lparr>warnings := warnings st @ [w]\<rparr>"

subsection \<open>The assertions\<close>

definition quote :: string where
  "quote = [CHR 0x22]"

text \<open>Reading \<^verbatim>\<open>element.props.x\<close> of a text node throws: a string has no
  \<^verbatim>\<open>props\<close>.\<close>

definition no_props :: error where
  "no_props = TypeError ''Cannot read properties of undefined''"

fun assertElementIsNotTextNode :: "element \<Rightarrow> error + unit" where
  "assertElementIsNotTextNode (Text element) =
     Inl (RouterConfigError (''There is a text node '' @ quote @ element @ quote @
       '' in the children of your <Router>. Routes need to be specified by react elements. Please remove this text node to fix this.''))"
| "assertElementIsNotTextNode (Element _ _ _ _) = Inr ()"

fun assertElementRedirectHasNoLoader :: "element \<Rightarrow> error + unit" where
  "assertElementRedirectHasNoLoader (Text _) = Inl no_props"
| "assertElementRedirectHasNoLoader (Element type props children childrenArray) =
     (if truthy_handler (loader props) \<and> type = Redirect
      then Inl (RouterConfigError ''There is a Redirect route with a loader. Redirect routes should not load data as they will not render. Please remove the loader to fix this.'')
      else Inr ())"

fun assertElementRedirictHasNoChildren :: "element \<Rightarrow> error + unit" where
  "assertElementRedirictHasNoChildren (Text _) = Inl no_props"
| "assertElementRedirictHasNoChildren (Element type props children childrenArray) =
     (if children \<and> type = Redirect
      then Inl (RouterConfigError ''There is a Redirect route with child routes. Redirect routes should not have child routes. Please remove the child routes to fix this.'')
      else Inr ())"

fun assertElementWithoutChildrenIsNotRoot :: "element \<Rightarrow> error + unit" where
  "assertElementWithoutChildrenIsNotRoot (Text _) = Inl no_props"
| "assertElementWithoutChildrenIsNotRoot (Element type props children childrenArray) =
     (if children \<and> truthy_bool (root props)
      then Inl (RouterConfigError ''There is a root route without child routes. Please remove the root property to fix this.'')
      else Inr ())"

text \<open>\<^verbatim>\<open>pathParts(path)[2]\<close>: the third entry, \<^verbatim>\<open>undefined\<close> when the array is
  shorter.\<close>

definition path_hash :: "('s, 'd) scope \<Rightarrow> string \<Rightarrow> string option" where
  "path_hash scope p =
     (let parts = pathParts scope p in if 2 < length parts then parts ! 2 else None)"

fun assertElementPathHasNoHash :: "('s, 'd) scope \<Rightarrow> element \<Rightarrow> error + unit" where
  "assertElementPathHasNoHash scope (Text _) = Inl no_props"
| "assertElementPathHasNoHash scope (Element type props children childrenArray) =
     (case path props of
        None \<Rightarrow> Inr ()
      | Some p \<Rightarrow>
          (case path_hash scope p of
             None \<Rightarrow> Inr ()
           | Some hash \<Rightarrow>
               if hash \<noteq> []
               then Inl (RouterConfigError (''There is a route with a hash '' @ quote @ ''#'' @ hash @ quote @
                 ''. Hashes should not be used in your route paths. Please remove the hash '' @
                 quote @ ''#'' @ hash @ quote @ '' to fix this.''))
               else Inr ()))"

definition assertNoElementErrors :: "element \<Rightarrow> error + unit" where
  "assertNoElementErrors element = assertElementIsNotTextNode element"

definition assertNoElementWarnings :: "('s, 'd) scope \<Rightarrow> element \<Rightarrow> error + unit" where
  "assertNoElementWarnings scope element =
     (case assertElementPathHasNoHash scope element of
        Inl e \<Rightarrow> Inl e
      | Inr _ \<Rightarrow>
     (case assertElementRedirectHasNoLoader element of
        Inl e \<Rightarrow> Inl e
      | Inr _ \<Rightarrow>
     (case assertElementRedirictHasNoChildren element of
        Inl e \<Rightarrow> Inl e
      | Inr _ \<Rightarrow> assertElementWithoutChildrenIsNotRoot element)))"

fun error_message :: "error \<Rightarrow> string" where
  "error_message (RouterConfigError m) = m"
| "error_message (TypeError m) = m"

text \<open>The two \<^verbatim>\<open>try/catch\<close> wrappers. A caught \<^verbatim>\<open>RouterConfigError\<close> becomes a
  warning when \<^verbatim>\<open>import.meta.env.DEV\<close> is set; every other case throws again.\<close>

definition verifyNoElementErrors ::
  "('s, 'd) scope \<Rightarrow> element \<Rightarrow> 'd state \<Rightarrow> (error + bool) \<times> 'd state" where
  "verifyNoElementErrors scope element st =
     (case assertNoElementErrors element of
        Inr _ \<Rightarrow> (Inr True, st)
      | Inl error \<Rightarrow>
          if DEV scope \<and> isRouterConfigError error
          then (Inr False, warn (ConfigConsole (error_message error) (rootElement scope) [element]) st)
          else (Inl error, st))"

definition verifyNoElementWarnings ::
  "('s, 'd) scope \<Rightarrow> element \<Rightarrow> 'd state \<Rightarrow> (error + bool) \<times> 'd state" where
  "verifyNoElementWarnings scope element st =
     (case assertNoElementWarnings scope element of
        Inr _ \<Rightarrow> (Inr True, st)
      | Inl error \<Rightarrow>
          if DEV scope \<and> isRouterConfigError error
          then (Inr False, warn (ConfigConsole (error_message error) (rootElement scope) [element]) st)
          else (Inl error, st))"

subsection \<open>Array methods with a callback that may throw and that prints\<close>

text \<open>
  \<^verbatim>\<open>filter\<close>, \<^verbatim>\<open>forEach\<close> and \<^verbatim>\<open>map\<close> call their callback on the entries from
  left to right. The callback gets the state and returns it changed; when it throws, the
  loop stops there and the exception leaves with the state as it is by then.
\<close>

fun Array_filter ::
  "('a \<Rightarrow> 'st \<Rightarrow> (error + bool) \<times> 'st) \<Rightarrow> 'a list \<Rightarrow> 'st \<Rightarrow> (error + 'a list) \<times> 'st" where
  "Array_filter f [] st = (Inr [], st)"
| "Array_filter f (x # xs) st =
     (case f x st of
        (Inl e, st') \<Rightarrow> (Inl e, st')
      | (Inr keep, st') \<Rightarrow>
          (case Array_filter f xs st' of
             (Inl e, st'') \<Rightarrow> (Inl e, st'')
           | (Inr ys, st'') \<Rightarrow> (Inr (if keep then x # ys else ys), st'')))"

fun Array_forEach ::
  "('a \<Rightarrow> 'st \<Rightarrow> (error + 'b) \<times> 'st) \<Rightarrow> 'a list \<Rightarrow> 'st \<Rightarrow> (error + unit) \<times> 'st" where
  "Array_forEach f [] st = (Inr (), st)"
| "Array_forEach f (x # xs) st =
     (case f x st of
        (Inl e, st') \<Rightarrow> (Inl e, st')
      | (Inr _, st') \<Rightarrow> Array_forEach f xs st')"

fun Array_map ::
  "('a \<Rightarrow> 'st \<Rightarrow> (error + 'b) \<times> 'st) \<Rightarrow> 'a list \<Rightarrow> 'st \<Rightarrow> (error + 'b list) \<times> 'st" where
  "Array_map f [] st = (Inr [], st)"
| "Array_map f (x # xs) st =
     (case f x st of
        (Inl e, st') \<Rightarrow> (Inl e, st')
      | (Inr y, st') \<Rightarrow>
          (case Array_map f xs st' of
             (Inl e, st'') \<Rightarrow> (Inl e, st'')
           | (Inr ys, st'') \<Rightarrow> (Inr (y # ys), st'')))"

text \<open>
  \<^verbatim>\<open>Array.prototype.sort(compare)\<close> is stable: entries that compare as equal keep their
  order. The language fixes the result when the comparator is consistent for the entries:
  comparing as equal is reflexive, symmetric and transitive, and comparing as less and
  comparing as greater are transitive. The result is then the one of the insertion sort
  below. For any other comparator the order is left to the engine, which still returns
  the entries it was given; an order that loses or adds an entry is not the order of an
  engine and is not followed.
\<close>

definition consistent :: "('a \<Rightarrow> 'a \<Rightarrow> int) \<Rightarrow> 'a list \<Rightarrow> bool" where
  "consistent compare xs =
     (\<forall>a \<in> set xs. \<forall>b \<in> set xs. \<forall>c \<in> set xs.
        compare a a = 0 \<and>
        (compare a b = 0 \<longrightarrow> compare b a = 0) \<and>
        (compare a b = 0 \<and> compare b c = 0 \<longrightarrow> compare a c = 0) \<and>
        (compare a b < 0 \<and> compare b c < 0 \<longrightarrow> compare a c < 0) \<and>
        (compare a b > 0 \<and> compare b c > 0 \<longrightarrow> compare a c > 0))"

fun sort_insert :: "('a \<Rightarrow> 'a \<Rightarrow> int) \<Rightarrow> 'a \<Rightarrow> 'a list \<Rightarrow> 'a list" where
  "sort_insert compare x [] = [x]"
| "sort_insert compare x (y # ys) =
     (if compare x y \<le> 0 then x # y # ys else y # sort_insert compare x ys)"

definition Array_sort ::
  "(('a \<Rightarrow> 'a \<Rightarrow> int) \<Rightarrow> 'a list \<Rightarrow> 'a list) \<Rightarrow> ('a \<Rightarrow> 'a \<Rightarrow> int) \<Rightarrow> 'a list \<Rightarrow> 'a list" where
  "Array_sort engine compare xs =
     (if consistent compare xs \<or> mset (engine compare xs) \<noteq> mset xs
      then foldr (sort_insert compare) xs []
      else engine compare xs)"

subsection \<open>sortElementsByDescriptorScore\<close>

text \<open>
  \<^verbatim>\<open>scores\<close> is an object literal \<^verbatim>\<open>{}\<close> used as a dictionary, so
  \<^verbatim>\<open>scores[path]\<close> reads the property named by the string of \<^verbatim>\<open>path\<close>: an absent
  path reads the key \<^verbatim>\<open>"undefined"\<close>. A key that the loop has not set is looked up in
  \<^verbatim>\<open>Object.prototype\<close>, whose properties are listed below; everything else reads as
  \<^verbatim>\<open>undefined\<close>.
\<close>

definition property_key :: "string option \<Rightarrow> string" where
  "property_key p = (case p of None \<Rightarrow> ''undefined'' | Some s \<Rightarrow> s)"

definition Object_prototype :: "string list" where
  "Object_prototype =
     [''constructor'', ''__defineGetter__'', ''__defineSetter__'', ''hasOwnProperty'',
      ''__lookupGetter__'', ''__lookupSetter__'', ''isPrototypeOf'', ''propertyIsEnumerable'',
      ''toString'', ''valueOf'', ''__proto__'', ''toLocaleString'']"

datatype 's slot = Missing | Number 's | Inherited string

definition scores_get :: "(string \<rightharpoonup> 's) \<Rightarrow> string \<Rightarrow> 's slot" where
  "scores_get scores key =
     (case scores key of
        Some s \<Rightarrow> Number s
      | None \<Rightarrow> if key \<in> set Object_prototype then Inherited key else Missing)"

text \<open>
  \<^verbatim>\<open><\<close> on two numbers compares them. An inherited property is a function or an
  object: it converts to the string that prints it, so next to a number it is
  \<^verbatim>\<open>NaN\<close> and the comparison is false, and two of them compare as strings.
\<close>

definition primitive :: "string \<Rightarrow> string" where
  "primitive key =
     (if key = ''__proto__'' then ''[object Object]''
      else ''function '' @ (if key = ''constructor'' then ''Object'' else key) @ ''() { [native code] }'')"

fun slot_less :: "('s::linorder) slot \<Rightarrow> 's slot \<Rightarrow> bool" where
  "slot_less (Number a) (Number b) = (a < b)"
| "slot_less (Inherited a) (Inherited b) = (primitive a < primitive b)"
| "slot_less _ _ = False"

text \<open>The loop that fills \<^verbatim>\<open>scores\<close>. \<^verbatim>\<open>element.props.path\<close> of a text node
  throws.\<close>

fun fill_scores ::
  "('s, 'd) scope \<Rightarrow> element list \<Rightarrow> (string \<rightharpoonup> 's) \<Rightarrow> error + (string \<rightharpoonup> 's)" where
  "fill_scores scope [] scores = Inr scores"
| "fill_scores scope (Text _ # elements) scores = Inl no_props"
| "fill_scores scope (Element type props children childrenArray # elements) scores =
     fill_scores scope elements
       (if scores_get scores (property_key (path props)) = Missing
        then scores(property_key (path props) \<mapsto> descriptorScore scope (path props))
        else scores)"

text \<open>\<^verbatim>\<open>a.props.path\<close> in the comparator. It runs after the loop, which has thrown
  if there is a text node, so only the second equation is ever used.\<close>

fun props_path :: "element \<Rightarrow> string option" where
  "props_path (Text _) = None"
| "props_path (Element type props children childrenArray) = path props"

definition compare_scores :: "(string \<rightharpoonup> ('s::linorder)) \<Rightarrow> element \<Rightarrow> element \<Rightarrow> int" where
  "compare_scores scores a b =
     (if slot_less (scores_get scores (property_key (props_path a)))
                   (scores_get scores (property_key (props_path b))) then 1
      else if slot_less (scores_get scores (property_key (props_path b)))
                        (scores_get scores (property_key (props_path a))) then - 1
      else 0)"

definition sortElementsByDescriptorScore ::
  "('s::linorder, 'd) scope \<Rightarrow> element list \<Rightarrow> error + element list" where
  "sortElementsByDescriptorScore scope elements =
     (case fill_scores scope elements Map.empty of
        Inl e \<Rightarrow> Inl e
      | Inr scores \<Rightarrow> Inr (Array_sort (engine_sort scope) (compare_scores scores) elements))"

subsection \<open>createConfigs\<close>

lemma Array_map_cong [fundef_cong]:
  "xs = ys \<Longrightarrow> st = st' \<Longrightarrow> (\<And>x s. x \<in> set ys \<Longrightarrow> f x s = g x s) \<Longrightarrow>
   Array_map f xs st = Array_map g ys st'"
proof (induction ys arbitrary: xs st st')
  case Nil
  then show ?case by simp
next
  case (Cons y ys)
  have step: "Array_map f ys s = Array_map g ys s" for s
    using Cons.IH [of ys s s] Cons.prems(3) by simp
  show ?case
    using Cons.prems by (simp add: step split: prod.splits sum.splits)
qed

lemma Array_filter_subset:
  "Array_filter f xs st = (Inr ys, st') \<Longrightarrow> set ys \<subseteq> set xs"
proof (induction xs arbitrary: st ys st')
  case Nil
  then show ?case by simp
next
  case (Cons x xs)
  then show ?case
    by (fastforce split: prod.splits sum.splits if_splits)
qed

lemma set_sort_insert: "set (sort_insert compare x ys) = insert x (set ys)"
  by (induction ys) auto

lemma mset_sort_insert: "mset (sort_insert compare x ys) = add_mset x (mset ys)"
  by (induction ys) auto

lemma mset_Array_sort: "mset (Array_sort engine compare xs) = mset xs"
proof -
  have "mset (foldr (sort_insert compare) xs []) = mset xs"
    by (induction xs) (simp_all add: mset_sort_insert)
  then show ?thesis by (simp add: Array_sort_def)
qed

lemma set_Array_sort: "set (Array_sort engine compare xs) = set xs"
  using mset_Array_sort [of engine compare xs] by (rule mset_eq_setD)


lemma set_sortElementsByDescriptorScore:
  "sortElementsByDescriptorScore scope xs = Inr ys \<Longrightarrow> set ys = set xs"
  by (auto simp: sortElementsByDescriptorScore_def set_Array_sort split: sum.splits)

lemma size_member: "x \<in> set xs \<Longrightarrow> size x < size_list size xs"
  by (induction xs) auto

text \<open>
  \<^verbatim>\<open>createConfigs(elements, {base, level})\<close>, and the arrow function that it maps over
  the sorted elements. \<^verbatim>\<open>sort\<close> sorts \<^verbatim>\<open>validElements\<close> in place, so the
  \<^verbatim>\<open>forEach\<close> that follows visits the elements in sorted order.
\<close>

definition emit ::
  "etype \<Rightarrow> props \<Rightarrow> handler option \<Rightarrow> handler option \<Rightarrow> config list option \<Rightarrow> config" where
  "emit type props loader' action' childConfigs =
     (if type = Redirect
      then RedirectConfig type (path props) (to props) (status props) action'
      else Config type (path props) (root props) (status props) loader' action' childConfigs)"

definition duplicate_message :: string where
  "duplicate_message =
     ''There are two routes which will match the same url. The second route will never render.''"

definition register ::
  "('s, 'd) scope \<Rightarrow> element \<Rightarrow> 'd \<Rightarrow> 'd state \<Rightarrow> 'd state" where
  "register scope element structure st =
     (case find (\<lambda>duplicate. equivalentDescriptors scope (snd duplicate) structure) (duplicates st) of
        Some duplicate \<Rightarrow>
          if DEV scope
          then warn (ConfigConsole duplicate_message (rootElement scope) [fst duplicate, element]) st
          else st\<lparr>duplicates := duplicates st @ [(element, structure)]\<rparr>
      | None \<Rightarrow> st\<lparr>duplicates := duplicates st @ [(element, structure)]\<rparr>)"

function createConfigs ::
    "('s::linorder, 'd) scope \<Rightarrow> element list \<Rightarrow> string \<Rightarrow> nat \<Rightarrow> 'd state \<Rightarrow>
     (error + config list) \<times> 'd state"
  and elementConfig ::
    "('s::linorder, 'd) scope \<Rightarrow> element \<Rightarrow> string \<Rightarrow> nat \<Rightarrow> 'd state \<Rightarrow>
     (error + config) \<times> 'd state"
where
  "createConfigs scope elements base level st =
     (case Array_filter (verifyNoElementErrors scope) elements st of
        (Inl e, st1) \<Rightarrow> (Inl e, st1)
      | (Inr validElements, st1) \<Rightarrow>
          (case sortElementsByDescriptorScore scope validElements of
             Inl e \<Rightarrow> (Inl e, st1)
           | Inr sortedElements \<Rightarrow>
               (case Array_forEach (verifyNoElementWarnings scope) sortedElements st1 of
                  (Inl e, st2) \<Rightarrow> (Inl e, st2)
                | (Inr _, st2) \<Rightarrow>
                    Array_map (\<lambda>element. elementConfig scope element base level)
                      sortedElements st2)))"
| "elementConfig scope (Text _) base level st = (Inl no_props, st)"
| "elementConfig scope (Element type props children childrenArray) base level st =
     (let action' = (if action props = Some (Value (Bool True))
                     then Some (Fn (ConfigAction (prefix scope))) else action props);
          loader' = (if loader props = Some (Value (Bool True))
                     then Some (Fn (ConfigLoader (prefix scope) level)) else loader props);
          childBase = resolvePaths scope base (path props)
      in if childrenArray \<noteq> []
         then (case createConfigs scope childrenArray childBase (level + 1) st of
                 (Inl e, st') \<Rightarrow> (Inl e, st')
               | (Inr childConfigs, st') \<Rightarrow>
                   (Inr (emit type props loader' action' (Some childConfigs)), st'))
         else (let descriptorPath = (if path props = None then joinPaths scope childBase ''*''
                                     else childBase);
                   structure = descriptorStructure scope descriptorPath
               in (Inr (emit type props loader' action' None),
                   register scope (Element type props children childrenArray) structure st)))"
  by pat_completeness auto
termination
proof (relation "measure (\<lambda>x. case x of
          Inl (scope, elements, base, level, st) \<Rightarrow> size_list size elements
        | Inr (scope, element, base, level, st) \<Rightarrow> size element)", goal_cases)
  case 1
  show ?case by simp
next
  case (2 scope elements base level st x1 st1 validElements sortedElements x2 st2 u element s)
  have "set validElements \<subseteq> set elements"
    using 2 Array_filter_subset [of "verifyNoElementErrors scope" elements st validElements st1]
    by simp
  moreover have "set sortedElements = set validElements"
    using 2 set_sortElementsByDescriptorScore by blast
  ultimately have "element \<in> set elements"
    using 2 by blast
  then show ?case by (simp add: size_member)
next
  case 3
  then show ?case by simp
qed

text \<open>\<^verbatim>\<open>createConfig(rootElement, {prefix})\<close>: the arguments are in the scope.\<close>

definition createConfig ::
  "('s::linorder, 'd) scope \<Rightarrow> (error + config list) \<times> 'd state" where
  "createConfig scope =
     createConfigs scope (case rootElement scope of None \<Rightarrow> [] | Some e \<Rightarrow> [e]) ''/'' 0
       \<lparr>duplicates = [],
        warnings = (if DEV scope \<and> rootElement scope = None
                    then [Console ''No routes are specified. The router will not render anything.'']
                    else [])\<rparr>"

section \<open>The built-in loader and action of config.js\<close>

text \<open>
  A parsed URL, as far as the code reads it. \<^verbatim>\<open>request.url\<close> is the serialisation of
  such a URL and \<^verbatim>\<open>new URL(request.url)\<close> parses it back, so the model keeps the parsed
  URL in the request.
\<close>

record URL =
  pathname :: string
  search :: string

datatype signal = AbortSignal string

record request =
  url :: URL
  signal :: signal
  body :: "string option"

text \<open>
  The object that a loader or an action is called with. A key that the caller does not
  put in reads as \<^verbatim>\<open>undefined\<close>: \<open>None\<close>.
\<close>

record ctx =
  request :: "request option"
  url :: "URL option"
  splat :: "string list option"
  params :: "(string \<times> string) list option"
  signal :: "signal option"

text \<open>
  What a call sets in motion, in the order in which it happens: the function created by
  \<^verbatim>\<open>createLoaderPromise\<close> goes on after \<^verbatim>\<open>await action\<close>, a function is called with its
  context, \<^verbatim>\<open>fetch(input, {method, body, headers})\<close> is called.
\<close>

datatype event =
    AwaitedAction
  | Invoke fn ctx
  | Fetch string string "string option" "(string \<times> string) list"

text \<open>The method of the request that \<^verbatim>\<open>fetch(input, init)\<close> sends, from
  \<^verbatim>\<open>init.method\<close>: a \<^verbatim>\<open>GET\<close> when the call names no method. The event and the
  world below have the request as it is sent: the input, this method, the body and the
  headers.\<close>

definition http_method :: "string option \<Rightarrow> string" where
  "http_method m = (case m of None \<Rightarrow> ''GET'' | Some name \<Rightarrow> name)"

text \<open>
  The world around the two modules: what calling a function of the application and
  awaiting its result gives, what \<^verbatim>\<open>fetch\<close> and the methods of a \<^verbatim>\<open>Response\<close>
  give, the number that a string converts to (\<open>None\<close> is \<^verbatim>\<open>NaN\<close>), the exponent
  notation in which a number from \<^verbatim>\<open>1e21\<close> on is printed, and the helpers of
  \<^verbatim>\<open>response.js\<close>, \<^verbatim>\<open>resource.js\<close> and \<^verbatim>\<open>match.js\<close>, which are not among the sources.
  The matches that \<^verbatim>\<open>isEquivalentMatch\<close> compares are defined with \<^verbatim>\<open>createLoaders\<close>.
\<close>

datatype scheduler = Scheduler string

record ('m, 'r) runtime =
  call :: "string \<Rightarrow> ctx \<Rightarrow> val outcome"
  fetch :: "string \<Rightarrow> string \<Rightarrow> string option \<Rightarrow> (string \<times> string) list \<Rightarrow> response outcome"
  json_body :: "response \<Rightarrow> val outcome"
  text_body :: "response \<Rightarrow> val outcome"
  ToNumber :: "string \<Rightarrow> real option"
  exponential :: "nat \<Rightarrow> string"
  createData :: "response \<Rightarrow> val outcome"
  createResource :: "val outcome \<Rightarrow> scheduler \<Rightarrow> 'r"
  isEquivalentMatch :: "'m \<Rightarrow> 'm \<Rightarrow> bool"

definition to_lower :: "char \<Rightarrow> char" where
  "to_lower c =
     (let n = (of_char c :: nat) in if 65 \<le> n \<and> n \<le> 90 then char_of (n + 32) else c)"

text \<open>\<^verbatim>\<open>headers.get(name)\<close>: the name in any case, \<^verbatim>\<open>null\<close> when there is no such
  header.\<close>

definition headers_get :: "(string \<times> string) list \<Rightarrow> string \<Rightarrow> string option" where
  "headers_get hs name = map_of hs (map to_lower name)"

text \<open>\<^verbatim>\<open>contentLength > 0\<close>: \<^verbatim>\<open>null\<close> converts to 0, a string to its number, and
  \<^verbatim>\<open>NaN\<close> is not greater than anything.\<close>

definition greater_zero :: "('m, 'r) runtime \<Rightarrow> string option \<Rightarrow> bool" where
  "greater_zero rt header =
     (case header of
        None \<Rightarrow> False
      | Some s \<Rightarrow> (case ToNumber rt s of None \<Rightarrow> False | Some n \<Rightarrow> 0 < n))"

fun String_includes :: "string \<Rightarrow> string \<Rightarrow> bool" where
  "String_includes [] sub = (sub = [])"
| "String_includes (c # cs) sub = (take (length sub) (c # cs) = sub \<or> String_includes cs sub)"

text \<open>\<^verbatim>\<open>contentType?.includes('application/json')\<close>\<close>

definition includes_json :: "string option \<Rightarrow> bool" where
  "includes_json contentType =
     (case contentType of None \<Rightarrow> False | Some s \<Rightarrow> String_includes s ''application/json'')"

text \<open>\<^verbatim>\<open>${level}\<close> in a template: a whole number below \<^verbatim>\<open>1e21\<close> prints as its
  decimal digits, a greater one in exponent notation.\<close>

fun decimal :: "nat \<Rightarrow> string" where
  "decimal n = (if n < 10 then [char_of (48 + n)] else decimal (n div 10) @ [char_of (48 + n mod 10)])"

definition Number_toString :: "('m, 'r) runtime \<Rightarrow> nat \<Rightarrow> string" where
  "Number_toString rt n = (if n < 10 ^ 21 then decimal n else exponential rt n)"

definition undefined_url :: val where
  "undefined_url = Error ''TypeError: Cannot read properties of undefined (reading url)''"

text \<open>The part that both built-in functions share, from the response to the result. The
  loader asks for the header \<^verbatim>\<open>content-type\<close>, the action for \<^verbatim>\<open>Content-Type\<close>.\<close>

definition decode :: "('m, 'r) runtime \<Rightarrow> string \<Rightarrow> response \<Rightarrow> val outcome" where
  "decode rt name response =
     (let contentType = headers_get (headers response) name;
          contentLength = headers_get (headers response) ''content-length'';
          result = (if greater_zero rt contentLength \<and> includes_json contentType
                    then json_body rt response else text_body rt response)
      in case result of
           Pending \<Rightarrow> Pending
         | Rejected e \<Rightarrow> Rejected e
         | Fulfilled v \<Rightarrow> if ok response then Fulfilled v else Rejected (Response response))"

text \<open>
  \<^verbatim>\<open>createConfigLoader(prefix, level)\<close> applied to a context: the events of the call and
  what the promise that it returns settles to. The parameter is destructured as
  \<^verbatim>\<open>{ request }\<close> and \<^verbatim>\<open>request.url\<close> is read first.
\<close>

definition createConfigLoader ::
  "('m, 'r) runtime \<Rightarrow> string \<Rightarrow> nat \<Rightarrow> ctx \<Rightarrow> event list \<times> val outcome" where
  "createConfigLoader rt pfx level ctx =
     (case ctx.request ctx of
        None \<Rightarrow> ([], Rejected undefined_url)
      | Some req \<Rightarrow>
          (let u = request.url req;
               input = pfx @ pathname u @ search u;
               hs = [(''Accept'', ''application/json''),
                     (''Range'', ''route='' @ Number_toString rt level)]
           in ([Fetch input (http_method None) None hs],
               case fetch rt input (http_method None) None hs of
                 Pending \<Rightarrow> Pending
               | Rejected e \<Rightarrow> Rejected e
               | Fulfilled response \<Rightarrow> decode rt ''content-type'' response)))"

definition createConfigAction ::
  "('m, 'r) runtime \<Rightarrow> string \<Rightarrow> ctx \<Rightarrow> event list \<times> val outcome" where
  "createConfigAction rt pfx ctx =
     (case ctx.request ctx of
        None \<Rightarrow> ([], Rejected undefined_url)
      | Some req \<Rightarrow>
          (let u = request.url req;
               input = pfx @ pathname u @ search u;
               hs = [(''Accept'', ''application/json'')]
           in ([Fetch input (http_method (Some ''POST'')) (body req) hs],
               case fetch rt input (http_method (Some ''POST'')) (body req) hs of
                 Pending \<Rightarrow> Pending
               | Rejected e \<Rightarrow> Rejected e
               | Fulfilled response \<Rightarrow> decode rt ''Content-Type'' response)))"

text \<open>Calling a function value with a context.\<close>

fun call_fn :: "('m, 'r) runtime \<Rightarrow> fn \<Rightarrow> ctx \<Rightarrow> event list \<times> val outcome" where
  "call_fn rt (User name) ctx = ([], call rt name ctx)"
| "call_fn rt (ConfigLoader pfx level) ctx = createConfigLoader rt pfx level ctx"
| "call_fn rt (ConfigAction pfx) ctx = createConfigAction rt pfx ctx"

section \<open>loaders.js\<close>

text \<open>
  A match is \<^verbatim>\<open>{config, splat, params, children}\<close>; \<^verbatim>\<open>children\<close> is the match of the
  next segment of the chain, or \<^verbatim>\<open>undefined\<close> at its end.
\<close>

datatype match = Match config "string list" "(string \<times> string) list" "match option"

fun match_config :: "match \<Rightarrow> config" where
  "match_config (Match c _ _ _) = c"

fun match_splat :: "match \<Rightarrow> string list" where
  "match_splat (Match _ s _ _) = s"

fun match_params :: "match \<Rightarrow> (string \<times> string) list" where
  "match_params (Match _ _ p _) = p"

text \<open>\<^verbatim>\<open>new AbortController()\<close>, which aborts when the signal of the request does.\<close>

datatype controller = AbortController signal

text \<open>
  An entry of the cache, \<^verbatim>\<open>{dirty, match, promise, resource, controller}\<close>. The promise
  is known by what it settles to.
\<close>

record 'r entry =
  dirty :: bool
  match :: match
  promise :: "val outcome"
  resource :: 'r
  controller :: controller

record render =
  root :: "match option"
  request :: request

text \<open>\<^verbatim>\<open>options\<close>: the cache \<^verbatim>\<open>loaders\<close> and the promise \<^verbatim>\<open>action\<close> may be
  \<^verbatim>\<open>undefined\<close>.\<close>

record 'r options =
  loaders :: "'r entry list option"
  action :: "val outcome option"
  scheduler :: scheduler

text \<open>\<^verbatim>\<open>await action\<close>: awaiting \<^verbatim>\<open>undefined\<close> goes on at once.\<close>

definition await_action :: "val outcome option \<Rightarrow> val outcome" where
  "await_action a = (case a of None \<Rightarrow> Fulfilled Undefined | Some p \<Rightarrow> p)"

text \<open>
  The nested \<^verbatim>\<open>async function createLoaderPromise()\<close>, which closes over \<^verbatim>\<open>action\<close>,
  \<^verbatim>\<open>loader\<close>, \<^verbatim>\<open>match\<close>, \<^verbatim>\<open>url\<close> and \<^verbatim>\<open>signal\<close>: the events it causes in their
  order, and what its promise settles to. A rejected \<^verbatim>\<open>await\<close> throws, which rejects
  the promise; an \<^verbatim>\<open>await\<close> that never settles leaves it pending.
\<close>

definition loader_context :: "match \<Rightarrow> request \<Rightarrow> ctx" where
  "loader_context m req =
     \<lparr>ctx.request = None, ctx.url = Some (request.url req), ctx.splat = Some (match_splat m),
      ctx.params = Some (match_params m), ctx.signal = Some (request.signal req)\<rparr>"

text \<open>
  \<^verbatim>\<open>await loader({ url, splat, params, signal })\<close> for a function, \<^verbatim>\<open>await loader\<close>
  for anything else: the events, and what the \<^verbatim>\<open>await\<close> gives.
\<close>

definition await_loader ::
  "(match, 'r) runtime \<Rightarrow> handler \<Rightarrow> match \<Rightarrow> request \<Rightarrow> event list \<times> val outcome" where
  "await_loader rt ld m req =
     (case ld of
        Fn f \<Rightarrow>
          (let (inner, result) = call_fn rt f (loader_context m req)
           in (Invoke f (loader_context m req) # inner, result))
      | Value v \<Rightarrow> ([], Fulfilled v)
      | Promise p \<Rightarrow> ([], p))"

definition createLoaderPromise ::
  "(match, 'r) runtime \<Rightarrow> val outcome option \<Rightarrow> handler \<Rightarrow> match \<Rightarrow> request \<Rightarrow>
   event list \<times> val outcome" where
  "createLoaderPromise rt act ld m req =
     (case await_action act of
        Pending \<Rightarrow> ([], Pending)
      | Rejected e \<Rightarrow> ([AwaitedAction], Rejected e)
      | Fulfilled _ \<Rightarrow>
          (let (events, loaderResult) = await_loader rt ld m req
           in (AwaitedAction # events,
               case loaderResult of
                 Pending \<Rightarrow> Pending
               | Rejected e \<Rightarrow> Rejected e
               | Fulfilled v \<Rightarrow>
                   (case v of Response r \<Rightarrow> createData rt r | _ \<Rightarrow> Fulfilled v))))"

text \<open>\<^verbatim>\<open>loaders?.find(loader => !loader.dirty && isEquivalentMatch(match, loader.match))\<close>\<close>

definition find_loader ::
  "(match, 'r) runtime \<Rightarrow> 'r entry list option \<Rightarrow> match \<Rightarrow> 'r entry option" where
  "find_loader rt cache m =
     (case cache of
        None \<Rightarrow> None
      | Some entries \<Rightarrow> find (\<lambda>l. \<not> dirty l \<and> isEquivalentMatch rt m (match l)) entries)"

text \<open>
  The body of the \<^verbatim>\<open>while\<close> loop for one match: the entry to push, if the segment has a
  loader, and the events of the promise, if one is created.
\<close>

definition loader_step ::
  "(match, 'r) runtime \<Rightarrow> render \<Rightarrow> 'r options \<Rightarrow> match \<Rightarrow> 'r entry list \<times> event list" where
  "loader_step rt rd opts m =
     (case config_loader (match_config m) of
        None \<Rightarrow> ([], [])
      | Some ld \<Rightarrow>
          if truthy_handler (Some ld)
          then (case find_loader rt (loaders opts) m of
                  Some result \<Rightarrow> ([result], [])
                | None \<Rightarrow>
                    (let (events, p) = createLoaderPromise rt (action opts) ld m (request rd)
                     in ([\<lparr>dirty = False, match = m, promise = p,
                           resource = createResource rt p (scheduler opts),
                           controller = AbortController (request.signal (request rd))\<rparr>],
                         events)))
          else ([], []))"

text \<open>The loop, from \<^verbatim>\<open>matched\<close> down the chain, with \<^verbatim>\<open>results\<close> and the events so
  far.\<close>

fun createLoaders_from ::
  "(match, 'r) runtime \<Rightarrow> render \<Rightarrow> 'r options \<Rightarrow> match \<Rightarrow> 'r entry list \<times> event list \<Rightarrow>
   'r entry list \<times> event list" where
  "createLoaders_from rt rd opts (Match c s p next) (results, events) =
     (let (pushed, caused) = loader_step rt rd opts (Match c s p next)
      in case next of
           None \<Rightarrow> (results @ pushed, events @ caused)
         | Some matched \<Rightarrow> createLoaders_from rt rd opts matched (results @ pushed, events @ caused))"

definition createLoaders ::
  "(match, 'r) runtime \<Rightarrow> render \<Rightarrow> 'r options \<Rightarrow> 'r entry list \<times> event list" where
  "createLoaders rt rd opts =
     (case root rd of
        None \<Rightarrow> ([], [])
      | Some matched \<Rightarrow> createLoaders_from rt rd opts matched ([], []))"

section \<open>Notions used in the statements\<close>

text \<open>Every element of a raw tree, the element itself first; and the elements below
  it.\<close>

fun tree :: "element \<Rightarrow> element list" where
  "tree (Text t) = [Text t]"
| "tree (Element type props children childrenArray) =
     Element type props children childrenArray # concat (map tree childrenArray)"

fun isElement :: "element \<Rightarrow> bool" where
  "isElement (Text _) = False"
| "isElement (Element _ _ _ _) = True"

fun subtrees :: "element \<Rightarrow> element list" where
  "subtrees (Text t) = []"
| "subtrees (Element type props children childrenArray) = concat (map tree childrenArray)"

definition reported :: "('s, 'd) scope \<Rightarrow> 'd state \<Rightarrow> element \<Rightarrow> bool" where
  "reported scope st e =
     (\<forall>err. (assertNoElementErrors e = Inl err \<or>
             (isElement e \<and> assertNoElementWarnings scope e = Inl err)) \<longrightarrow>
        ConfigConsole (error_message err) (rootElement scope) [e] \<in> set (warnings st))"

definition clean :: "('s, 'd) scope \<Rightarrow> element \<Rightarrow> bool" where
  "clean scope e = (isElement e \<and> assertNoElementWarnings scope e = Inr ())"

text \<open>Every node of a compiled tree, and the object literal that the compiler returns for
  a \<^verbatim>\<open>Redirect\<close> element with the given properties.\<close>

fun nodes :: "config \<Rightarrow> config list" where
  "nodes (Config t p r s l a cs) =
     Config t p r s l a cs # (case cs of None \<Rightarrow> [] | Some xs \<Rightarrow> concat (map nodes xs))"
| "nodes (RedirectConfig t p d s a) = [RedirectConfig t p d s a]"

definition redirect_of :: "('s, 'd) scope \<Rightarrow> props \<Rightarrow> config" where
  "redirect_of scope ps =
     RedirectConfig Redirect (path ps) (to ps) (status ps)
       (if props.action ps = Some (Value (Bool True))
        then Some (Fn (ConfigAction (prefix scope))) else props.action ps)"

definition from_redirect :: "('s, 'd) scope \<Rightarrow> element list \<Rightarrow> config \<Rightarrow> bool" where
  "from_redirect scope es n =
     (config_type n = Redirect \<longrightarrow>
        (\<exists>ps c k. Element Redirect ps c k \<in> set es \<and> n = redirect_of scope ps))"





text \<open>The matches of a chain from its root down; those of a render.\<close>

fun chain :: "match \<Rightarrow> match list" where
  "chain (Match c s p next) =
     Match c s p next # (case next of None \<Rightarrow> [] | Some m \<Rightarrow> chain m)"

definition segments :: "render \<Rightarrow> match list" where
  "segments rd = (case root rd of None \<Rightarrow> [] | Some m \<Rightarrow> chain m)"

text \<open>The entries of the cache that was passed in, none if it is \<^verbatim>\<open>undefined\<close>.\<close>

definition cached :: "'r options \<Rightarrow> 'r entry list" where
  "cached opts = (case loaders opts of None \<Rightarrow> [] | Some entries \<Rightarrow> entries)"

text \<open>In a sequence of events, every call of a function comes right after the end of an
  \<^verbatim>\<open>await action\<close>.\<close>

definition awaited_first :: "event list \<Rightarrow> bool" where
  "awaited_first events =
     (\<forall>i < length events. \<forall>f c. events ! i = Invoke f c \<longrightarrow>
        0 < i \<and> events ! (i - 1) = AwaitedAction)"

text \<open>
  The score of an element is the score of its path. A list of elements is well keyed
  when none is a text node, no path is the name of a property of \<^verbatim>\<open>Object.prototype\<close>,
  and two paths that name the same property of \<^verbatim>\<open>scores\<close> (an absent path and the path
  \<^verbatim>\<open>undefined\<close>) have the same score.
\<close>

definition score :: "('s, 'd) scope \<Rightarrow> element \<Rightarrow> 's" where
  "score scope e = descriptorScore scope (props_path e)"

definition well_keyed :: "('s, 'd) scope \<Rightarrow> element list \<Rightarrow> bool" where
  "well_keyed scope xs =
     ((\<forall>e \<in> set xs. isElement e \<and> property_key (props_path e) \<notin> set Object_prototype) \<and>
      (\<forall>a \<in> set xs. \<forall>b \<in> set xs.
         property_key (props_path a) = property_key (props_path b) \<longrightarrow> score scope a = score scope b))"

fun element_type :: "element \<Rightarrow> etype option" where
  "element_type (Text _) = None"
| "element_type (Element type props children childrenArray) = Some type"

section \<open>Concrete inputs\<close>

text \<open>
  Stand-ins for the helpers that are not among the sources, for evaluating the code on
  concrete trees: a path splits at \<^verbatim>\<open>#\<close>, paths join with \<^verbatim>\<open>/\<close>, a literal path
  scores 2, a parameter 1, no path 0, two descriptors are equivalent when they are
  the same path, and the engine sorts by insertion.
\<close>

definition example_scope :: "bool \<Rightarrow> element option \<Rightarrow> (int, string) scope" where
  "example_scope dev r =
     \<lparr>DEV = dev, prefix = ''/api'', rootElement = r,
      pathParts = (\<lambda>p. [Some (takeWhile (\<lambda>c. c \<noteq> CHR ''#'') p), None,
                        (if CHR ''#'' \<in> set p then Some (tl (dropWhile (\<lambda>c. c \<noteq> CHR ''#'') p))
                         else None)]),
      resolvePaths = (\<lambda>base p. case p of None \<Rightarrow> base
                                | Some q \<Rightarrow> if base = ''/'' then base @ q else base @ ''/'' @ q),
      joinPaths = (\<lambda>a b. if a = ''/'' then a @ b else a @ ''/'' @ b),
      descriptorScore = (\<lambda>p. case p of None \<Rightarrow> 0
                                | Some s \<Rightarrow> if s = [] then 0 else if hd s = CHR '':'' then 1 else 2),
      descriptorStructure = (\<lambda>p. p),
      equivalentDescriptors = (\<lambda>a b. a = b),
      engine_sort = (\<lambda>compare xs. foldr (sort_insert compare) xs [])\<rparr>"

definition route :: "string option \<Rightarrow> props" where
  "route p = \<lparr>path = p, root = None, to = None, status = None, loader = None, action = None\<rparr>"

definition empty_state :: "string state" where
  "empty_state = \<lparr>duplicates = [], warnings = []\<rparr>"

definition childless_root :: element where
  "childless_root = Element (Component ''App'') ((route None)\<lparr>props.root := Some True\<rparr>) False []"

definition root_with_child :: element where
  "root_with_child =
     Element (Component ''App'') ((route None)\<lparr>props.root := Some True\<rparr>) True
       [Element (Component ''Home'') (route (Some ''home'')) False []]"

definition redirect_with_loader :: element where
  "redirect_with_loader =
     Element Redirect ((route (Some ''old''))\<lparr>to := Some (To_path ''/new''),
       props.loader := Some (Fn (User ''load''))\<rparr>) False []"

definition redirect_with_action :: element where
  "redirect_with_action =
     Element Redirect ((route (Some ''old''))\<lparr>to := Some (To_path ''/new''),
       props.action := Some (Fn (User ''submit''))\<rparr>) False []"




text \<open>
  A stand-in for the world around the loaders: two functions of the application, a
  server that answers every request with a JSON document, a cache that holds resources
  by their promise, and matches that are equivalent when they are equal.
\<close>

definition users_response :: response where
  "users_response =
     \<lparr>ok = True,
      headers = [(''content-type'', ''application/json; charset=utf-8''), (''content-length'', ''17'')],
      response.body = ''{users: [ada, bob]}''\<rparr>"

definition example_runtime :: "(match, val outcome) runtime" where
  "example_runtime =
     \<lparr>call = (\<lambda>name c.
         if name = ''loadUsers'' then Fulfilled (Object ''users'')
         else if name = ''loadPage'' then Fulfilled (Response users_response)
         else Rejected (Error ''not a function'')),
      fetch = (\<lambda>input m b hs. Fulfilled users_response),
      json_body = (\<lambda>r. Fulfilled (Object (response.body r))),
      text_body = (\<lambda>r. Fulfilled (Str (response.body r))),
      ToNumber = (\<lambda>s. if s = ''17'' then Some 17 else if s = ''0'' then Some 0 else None),
      exponential = (\<lambda>n. ''1e+21''),
      createData = (\<lambda>r. Fulfilled (Object (response.body r))),
      createResource = (\<lambda>p s. p),
      isEquivalentMatch = (\<lambda>a b. a = b)\<rparr>"

definition users_request :: request where
  "users_request =
     \<lparr>request.url = \<lparr>pathname = ''/users'', search = ''?page=2''\<rparr>,
      request.signal = AbortSignal ''navigation'', request.body = None\<rparr>"

definition request_context :: ctx where
  "request_context =
     \<lparr>ctx.request = Some users_request, ctx.url = None, ctx.splat = None, ctx.params = None,
      ctx.signal = None\<rparr>"

definition failed_response :: response where
  "failed_response =
     \<lparr>ok = False, headers = [(''content-type'', ''text/plain'')], response.body = ''no such user''\<rparr>"

definition users_route :: element where
  "users_route =
     Element (Component ''Users'') ((route (Some ''users''))\<lparr>props.loader := Some (Value (Bool True))\<rparr>)
       False []"

definition users_config :: config where
  "users_config =
     Config (Component ''Users'') (Some ''users'') None None (Some (Fn (ConfigLoader ''/api'' 0))) None None"

definition users_render :: render where
  "users_render = \<lparr>root = Some (Match users_config [] [] None), request = users_request\<rparr>"

definition no_options :: "(val outcome) options" where
  "no_options = \<lparr>loaders = None, action = None, scheduler = Scheduler ''router''\<rparr>"

definition users_match :: match where
  "users_match =
     Match (Config (Component ''Users'') (Some ''users'') None None
              (Some (Fn (User ''loadUsers''))) None None) [] [] None"

definition page_match :: match where
  "page_match =
     Match (Config (Component ''Page'') (Some ''page'') None None
              (Some (Fn (User ''loadPage''))) None None) [] [] None"

definition cached_entry :: "(val outcome) entry" where
  "cached_entry =
     \<lparr>dirty = False, match = users_match, promise = Fulfilled (Object ''users''),
      resource = Fulfilled (Object ''users''),
      controller = AbortController (AbortSignal ''earlier'')\<rparr>"

definition navigation :: "match \<Rightarrow> render" where
  "navigation m = \<lparr>root = Some m, request = users_request\<rparr>"

definition with_cache :: "(val outcome) entry list \<Rightarrow> (val outcome) options" where
  "with_cache entries = \<lparr>loaders = Some entries, action = None, scheduler = Scheduler ''router''\<rparr>"

text \<open>Options with an action and no cache, and a match whose loader is not a
  function.\<close>

definition after_action :: "val outcome \<Rightarrow> (val outcome) options" where
  "after_action p = \<lparr>loaders = None, action = Some p, scheduler = Scheduler ''router''\<rparr>"

definition static_match :: "handler \<Rightarrow> match" where
  "static_match ld =
     Match (Config (Component ''Settings'') (Some ''settings'') None None (Some ld) None None) [] [] None"

text \<open>
  Three more answers of the server: plain text, a JSON document of length 0, and a page of
  HTML sent as JSON with a status that is not successful. Decoding that page as JSON
  fails.
\<close>

definition text_response :: response where
  "text_response =
     \<lparr>ok = True, headers = [(''content-type'', ''text/plain''), (''content-length'', ''17'')],
      response.body = ''ada, bob''\<rparr>"

definition empty_response :: response where
  "empty_response =
     \<lparr>ok = True, headers = [(''content-type'', ''application/json''), (''content-length'', ''0'')],
      response.body = ''''\<rparr>"

definition malformed_response :: response where
  "malformed_response =
     \<lparr>ok = False, headers = [(''content-type'', ''application/json''), (''content-length'', ''17'')],
      response.body = ''<h1>Not found</h1>''\<rparr>"

definition answering :: "response \<Rightarrow> (match, val outcome) runtime" where
  "answering r =
     example_runtime
       \<lparr>fetch := (\<lambda>input m b hs. Fulfilled r),
        json_body := (\<lambda>r. if hd (response.body r) = CHR ''<''
                            then Rejected (Error ''SyntaxError: Unexpected token <'')
                            else Fulfilled (Object (response.body r)))\<rparr>"

definition parameter_route :: element where
  "parameter_route = Element (Component ''User'') (route (Some '':id'')) False []"

definition constructor_route :: element where
  "constructor_route = Element (Component ''Constructor'') (route (Some ''constructor'')) False []"

section \<open>Compilation in development and in production\<close>

lemma assertNoElementWarnings_Element:
  "assertNoElementWarnings scope (Element t p c k) = Inl err \<Longrightarrow> isRouterConfigError err"
  by (auto simp: assertNoElementWarnings_def split: sum.splits option.splits if_splits)

lemma verifyNoElementErrors_DEV:
  "DEV scope \<Longrightarrow> verifyNoElementErrors scope e st =
     (case e of
        Text t \<Rightarrow> (Inr False, warn (ConfigConsole (case assertNoElementErrors e of Inl err \<Rightarrow> error_message err | Inr _ \<Rightarrow> []) (rootElement scope) [e]) st)
      | Element _ _ _ _ \<Rightarrow> (Inr True, st))"
  by (cases e) (simp_all add: verifyNoElementErrors_def assertNoElementErrors_def)

lemma verifyNoElementErrors_PROD:
  "\<not> DEV scope \<Longrightarrow> verifyNoElementErrors scope e st =
     (case assertNoElementErrors e of Inl err \<Rightarrow> (Inl err, st) | Inr _ \<Rightarrow> (Inr True, st))"
  by (simp add: verifyNoElementErrors_def split: sum.splits)

lemma Array_filter_DEV:
  "DEV scope \<Longrightarrow>
   \<exists>st'. Array_filter (verifyNoElementErrors scope) xs st = (Inr (filter isElement xs), st') \<and>
         duplicates st' = duplicates st \<and>
         set (warnings st) \<subseteq> set (warnings st') \<and>
         (\<forall>e \<in> set xs. \<forall>err. assertNoElementErrors e = Inl err \<longrightarrow>
            ConfigConsole (error_message err) (rootElement scope) [e] \<in> set (warnings st'))"
proof (induction xs arbitrary: st)
  case Nil
  then show ?case by simp
next
  case (Cons x xs)
  show ?case
  proof (cases x)
    case (Text t)
    let ?st1 = "warn (ConfigConsole (case assertNoElementErrors x of Inl err \<Rightarrow> error_message err | Inr _ \<Rightarrow> []) (rootElement scope) [x]) st"
    obtain st' where st': "Array_filter (verifyNoElementErrors scope) xs ?st1 = (Inr (filter isElement xs), st')"
      "duplicates st' = duplicates ?st1" "set (warnings ?st1) \<subseteq> set (warnings st')"
      "\<forall>e \<in> set xs. \<forall>err. assertNoElementErrors e = Inl err \<longrightarrow>
            ConfigConsole (error_message err) (rootElement scope) [e] \<in> set (warnings st')"
      using Cons.IH [OF Cons.prems, of ?st1] by blast
    have "Array_filter (verifyNoElementErrors scope) (x # xs) st = (Inr (filter isElement (x # xs)), st')"
      using Text st'(1) Cons.prems by (simp add: verifyNoElementErrors_DEV)
    moreover have "duplicates st' = duplicates st"
      using st'(2) by (simp add: warn_def)
    moreover have "set (warnings st) \<subseteq> set (warnings st')"
      using st'(3) by (auto simp: warn_def)
    moreover have "\<forall>e \<in> set (x # xs). \<forall>err. assertNoElementErrors e = Inl err \<longrightarrow>
            ConfigConsole (error_message err) (rootElement scope) [e] \<in> set (warnings st')"
      using st'(3,4) by (auto simp: warn_def)
    ultimately show ?thesis by blast
  next
    case (Element t p c k)
    obtain st' where st': "Array_filter (verifyNoElementErrors scope) xs st = (Inr (filter isElement xs), st')"
      "duplicates st' = duplicates st" "set (warnings st) \<subseteq> set (warnings st')"
      "\<forall>e \<in> set xs. \<forall>err. assertNoElementErrors e = Inl err \<longrightarrow>
            ConfigConsole (error_message err) (rootElement scope) [e] \<in> set (warnings st')"
      using Cons.IH [OF Cons.prems, of st] by blast
    have "Array_filter (verifyNoElementErrors scope) (x # xs) st = (Inr (filter isElement (x # xs)), st')"
      using Element st'(1) Cons.prems by (simp add: verifyNoElementErrors_DEV)
    moreover have "\<forall>e \<in> set (x # xs). \<forall>err. assertNoElementErrors e = Inl err \<longrightarrow>
            ConfigConsole (error_message err) (rootElement scope) [e] \<in> set (warnings st')"
      using st'(4) Element by (auto simp: assertNoElementErrors_def)
    ultimately show ?thesis using st'(2,3) by blast
  qed
qed

lemma verifyNoElementWarnings_DEV:
  "DEV scope \<Longrightarrow> isElement e \<Longrightarrow> verifyNoElementWarnings scope e st =
     (case assertNoElementWarnings scope e of
        Inr _ \<Rightarrow> (Inr True, st)
      | Inl err \<Rightarrow> (Inr False, warn (ConfigConsole (error_message err) (rootElement scope) [e]) st))"
  by (cases e) (auto simp: verifyNoElementWarnings_def split: sum.splits dest: assertNoElementWarnings_Element)

lemma verifyNoElementWarnings_DEV_step:
  assumes "DEV scope" "isElement e"
  shows "\<exists>r st1. verifyNoElementWarnings scope e st = (Inr r, st1) \<and>
     duplicates st1 = duplicates st \<and> set (warnings st) \<subseteq> set (warnings st1) \<and>
     (\<forall>err. assertNoElementWarnings scope e = Inl err \<longrightarrow>
            ConfigConsole (error_message err) (rootElement scope) [e] \<in> set (warnings st1))"
proof (cases "assertNoElementWarnings scope e")
  case (Inl err)
  then show ?thesis
    using assms by (auto simp: verifyNoElementWarnings_DEV warn_def)
next
  case (Inr u)
  then show ?thesis
    using assms by (auto simp: verifyNoElementWarnings_DEV)
qed

lemma Array_forEach_DEV:
  "DEV scope \<Longrightarrow> \<forall>e \<in> set xs. isElement e \<Longrightarrow>
   \<exists>st'. Array_forEach (verifyNoElementWarnings scope) xs st = (Inr (), st') \<and>
         duplicates st' = duplicates st \<and>
         set (warnings st) \<subseteq> set (warnings st') \<and>
         (\<forall>e \<in> set xs. \<forall>err. assertNoElementWarnings scope e = Inl err \<longrightarrow>
            ConfigConsole (error_message err) (rootElement scope) [e] \<in> set (warnings st'))"
proof (induction xs arbitrary: st)
  case Nil
  then show ?case by simp
next
  case (Cons x xs)
  obtain r st1 where r: "verifyNoElementWarnings scope x st = (Inr r, st1)"
     and d1: "duplicates st1 = duplicates st" and w1: "set (warnings st) \<subseteq> set (warnings st1)"
     and x: "\<forall>err. assertNoElementWarnings scope x = Inl err \<longrightarrow>
            ConfigConsole (error_message err) (rootElement scope) [x] \<in> set (warnings st1)"
    using verifyNoElementWarnings_DEV_step [of scope x st] Cons.prems by auto
  obtain st' where st': "Array_forEach (verifyNoElementWarnings scope) xs st1 = (Inr (), st')"
      "duplicates st' = duplicates st1" "set (warnings st1) \<subseteq> set (warnings st')"
      "\<forall>e \<in> set xs. \<forall>err. assertNoElementWarnings scope e = Inl err \<longrightarrow>
            ConfigConsole (error_message err) (rootElement scope) [e] \<in> set (warnings st')"
    using Cons.IH [of st1] Cons.prems by auto
  have "Array_forEach (verifyNoElementWarnings scope) (x # xs) st = (Inr (), st')"
    using r st'(1) by simp
  moreover have "\<forall>e \<in> set (x # xs). \<forall>err. assertNoElementWarnings scope e = Inl err \<longrightarrow>
            ConfigConsole (error_message err) (rootElement scope) [e] \<in> set (warnings st')"
    using x st'(3,4) by auto
  ultimately show ?case using d1 w1 st'(2,3) by auto
qed


lemma reported_mono:
  "set (warnings st) \<subseteq> set (warnings st') \<Longrightarrow> reported scope st e \<Longrightarrow> reported scope st' e"
  by (auto simp: reported_def)

lemma Array_map_reports:
  assumes "\<And>x s. x \<in> set xs \<Longrightarrow>
      \<exists>y s'. f x s = (Inr y, s') \<and> set (warnings s) \<subseteq> set (warnings s') \<and>
             (\<forall>e \<in> set (A x). reported scope s' e)"
  shows "\<exists>ys s'. Array_map f xs st = (Inr ys, s') \<and> set (warnings st) \<subseteq> set (warnings s') \<and>
             (\<forall>x \<in> set xs. \<forall>e \<in> set (A x). reported scope s' e)"
  using assms
proof (induction xs arbitrary: st)
  case Nil
  then show ?case by simp
next
  case (Cons x xs)
  obtain y s1 where y: "f x st = (Inr y, s1)" "set (warnings st) \<subseteq> set (warnings s1)"
      "\<forall>e \<in> set (A x). reported scope s1 e"
    using Cons.prems [of x st] by auto
  obtain ys s' where ys: "Array_map f xs s1 = (Inr ys, s')" "set (warnings s1) \<subseteq> set (warnings s')"
      "\<forall>x \<in> set xs. \<forall>e \<in> set (A x). reported scope s' e"
    using Cons.IH [of s1] Cons.prems by auto
  have "Array_map f (x # xs) st = (Inr (y # ys), s')"
    using y(1) ys(1) by simp
  moreover have "set (warnings st) \<subseteq> set (warnings s')"
    using y(2) ys(2) by blast
  moreover have "\<forall>z \<in> set (x # xs). \<forall>e \<in> set (A z). reported scope s' e"
  proof -
    have "reported scope s' e" if "e \<in> set (A x)" for e
      using y(3) that reported_mono [OF ys(2)] by blast
    then show ?thesis using ys(3) by simp
  qed
  ultimately show ?case by blast
qed

lemma fill_scores_elements:
  "\<forall>e \<in> set xs. isElement e \<Longrightarrow> \<exists>scores'. fill_scores scope xs scores = Inr scores'"
proof (induction xs arbitrary: scores)
  case Nil
  then show ?case by simp
next
  case (Cons x xs)
  then show ?case by (cases x) auto
qed

lemma sortElementsByDescriptorScore_elements:
  assumes "\<forall>e \<in> set xs. isElement e"
  shows "\<exists>ys. sortElementsByDescriptorScore scope xs = Inr ys \<and> set ys = set xs"
proof -
  obtain scores where "fill_scores scope xs Map.empty = Inr scores"
    using fill_scores_elements [OF assms] by blast
  then show ?thesis
    by (simp add: sortElementsByDescriptorScore_def set_Array_sort)
qed

lemma register_warnings: "set (warnings st) \<subseteq> set (warnings (register scope e d st))"
  by (auto simp: register_def warn_def split: option.splits)

lemma compile_DEV:
  fixes scope :: "('s::linorder, 'd) scope"
  shows "DEV scope \<longrightarrow>
     (\<exists>cs st'. createConfigs scope elements base level st = (Inr cs, st') \<and>
        set (warnings st) \<subseteq> set (warnings st') \<and>
        (\<forall>e \<in> set (concat (map tree elements)). reported scope st' e))"
    and "DEV scope \<longrightarrow> isElement element \<longrightarrow>
     (\<exists>c st'. elementConfig scope element base level st = (Inr c, st') \<and>
        set (warnings st) \<subseteq> set (warnings st') \<and>
        (\<forall>e \<in> set (subtrees element). reported scope st' e))"
proof (induction scope elements base level st and scope element base level st
       rule: createConfigs_elementConfig.induct)
  case (1 scope elements base level st)
  show ?case
  proof
    assume dev: "DEV scope"
    obtain st1 where st1:
        "Array_filter (verifyNoElementErrors scope) elements st = (Inr (filter isElement elements), st1)"
        "set (warnings st) \<subseteq> set (warnings st1)"
        "\<forall>e \<in> set elements. \<forall>err. assertNoElementErrors e = Inl err \<longrightarrow>
            ConfigConsole (error_message err) (rootElement scope) [e] \<in> set (warnings st1)"
      using Array_filter_DEV [OF dev, of elements st] by blast
    let ?valid = "filter isElement elements"
    have valid: "\<forall>e \<in> set ?valid. isElement e" by simp
    obtain sorted where sorted: "sortElementsByDescriptorScore scope ?valid = Inr sorted"
        "set sorted = set ?valid"
      using sortElementsByDescriptorScore_elements [OF valid] by blast
    have sorted_el: "\<forall>e \<in> set sorted. isElement e"
      using sorted(2) by simp
    obtain st2 where st2:
        "Array_forEach (verifyNoElementWarnings scope) sorted st1 = (Inr (), st2)"
        "set (warnings st1) \<subseteq> set (warnings st2)"
        "\<forall>e \<in> set sorted. \<forall>err. assertNoElementWarnings scope e = Inl err \<longrightarrow>
            ConfigConsole (error_message err) (rootElement scope) [e] \<in> set (warnings st2)"
      using Array_forEach_DEV [OF dev sorted_el, of st1] by blast
    have step: "\<exists>y s'. elementConfig scope x base level s = (Inr y, s') \<and>
             set (warnings s) \<subseteq> set (warnings s') \<and>
             (\<forall>e \<in> set (subtrees x). reported scope s' e)"
      if "x \<in> set sorted" for x s
      using "1.IH" [OF st1(1) [symmetric] refl sorted(1) st2(1) [symmetric] refl that, of s]
        dev sorted_el that by blast
    obtain cs st' where cs:
        "Array_map (\<lambda>element. elementConfig scope element base level) sorted st2 = (Inr cs, st')"
        "set (warnings st2) \<subseteq> set (warnings st')"
        "\<forall>x \<in> set sorted. \<forall>e \<in> set (subtrees x). reported scope st' e"
      using Array_map_reports [of sorted "\<lambda>element. elementConfig scope element base level" subtrees scope st2]
        step by blast
    have result: "createConfigs scope elements base level st = (Inr cs, st')"
      using st1(1) sorted(1) st2(1) cs(1) by simp
    have grows: "set (warnings st) \<subseteq> set (warnings st')"
      using st1(2) st2(2) cs(2) by blast
    have "reported scope st' e" if e: "e \<in> set (concat (map tree elements))" for e
    proof -
      obtain x where x: "x \<in> set elements" "e \<in> set (tree x)"
        using e by auto
      show ?thesis
      proof (cases x)
        case (Text t)
        then have "e = x" using x(2) by simp
        then show ?thesis
          using st1(3) x(1) Text st2(2) cs(2) by (auto simp: reported_def)
      next
        case (Element t p c k)
        then have xs: "x \<in> set sorted" using x(1) sorted(2) by simp
        show ?thesis
        proof (cases "e = x")
          case True
          then show ?thesis
            using st2(3) xs cs(2) Element by (auto simp: reported_def assertNoElementErrors_def)
        next
          case False
          then have "e \<in> set (subtrees x)" using x(2) Element by simp
          then show ?thesis using cs(3) xs by blast
        qed
      qed
    qed
    then show "\<exists>cs st'. createConfigs scope elements base level st = (Inr cs, st') \<and>
        set (warnings st) \<subseteq> set (warnings st') \<and>
        (\<forall>e \<in> set (concat (map tree elements)). reported scope st' e)"
      using result grows by blast
  qed
next
  case (2 scope uu base level st)
  show ?case by simp
next
  case (3 scope type props children childrenArray base level st)
  show ?case
  proof (cases "childrenArray = []")
    case True
    then show ?thesis
      by (simp add: Let_def register_warnings)
  next
    case False
    show ?thesis
      using "3.IH" [OF refl refl refl False] False
      by (auto simp: Let_def)
  qed
qed

lemma Array_filter_PROD:
  "\<not> DEV scope \<Longrightarrow>
   (case Array_filter (verifyNoElementErrors scope) xs st of
      (Inl err, st') \<Rightarrow> isRouterConfigError err \<and> st' = st
    | (Inr ys, st') \<Rightarrow> ys = xs \<and> st' = st \<and> (\<forall>e \<in> set xs. isElement e))"
proof (induction xs)
  case Nil
  then show ?case by simp
next
  case (Cons x xs)
  then show ?case
    by (cases x)
       (auto simp: verifyNoElementErrors_PROD assertNoElementErrors_def split: prod.splits sum.splits)
qed

lemma verifyNoElementWarnings_PROD:
  "\<not> DEV scope \<Longrightarrow> verifyNoElementWarnings scope e st =
     (case assertNoElementWarnings scope e of Inl err \<Rightarrow> (Inl err, st) | Inr _ \<Rightarrow> (Inr True, st))"
  by (simp add: verifyNoElementWarnings_def split: sum.splits)

lemma Array_forEach_PROD:
  "\<not> DEV scope \<Longrightarrow> \<forall>e \<in> set xs. isElement e \<Longrightarrow>
   (case Array_forEach (verifyNoElementWarnings scope) xs st of
      (Inl err, st') \<Rightarrow> isRouterConfigError err \<and> st' = st
    | (Inr u, st') \<Rightarrow> st' = st \<and> (\<forall>e \<in> set xs. assertNoElementWarnings scope e = Inr ()))"
proof (induction xs)
  case Nil
  then show ?case by simp
next
  case (Cons x xs)
  then obtain t p c k where x: "x = Element t p c k" by (cases x) auto
  show ?case
  proof (cases "assertNoElementWarnings scope x")
    case (Inl err)
    then show ?thesis
      using Cons.prems x assertNoElementWarnings_Element [of scope t p c k err]
      by (simp add: verifyNoElementWarnings_PROD)
  next
    case (Inr u)
    then show ?thesis
      using Cons by (auto simp: verifyNoElementWarnings_PROD split: prod.splits sum.splits)
  qed
qed

lemma Array_map_raises:
  assumes "\<And>x s. x \<in> set xs \<Longrightarrow>
      (case f x s of
         (Inl err, s') \<Rightarrow> isRouterConfigError err \<and> warnings s' = warnings s
       | (Inr y, s') \<Rightarrow> warnings s' = warnings s \<and> G x)"
  shows "(case Array_map f xs st of
         (Inl err, s') \<Rightarrow> isRouterConfigError err \<and> warnings s' = warnings st
       | (Inr ys, s') \<Rightarrow> warnings s' = warnings st \<and> (\<forall>x \<in> set xs. G x))"
  using assms
proof (induction xs arbitrary: st)
  case Nil
  then show ?case by simp
next
  case (Cons x xs)
  have head: "case f x st of
         (Inl err, s') \<Rightarrow> isRouterConfigError err \<and> warnings s' = warnings st
       | (Inr y, s') \<Rightarrow> warnings s' = warnings st \<and> G x"
    using Cons.prems [of x st] by simp
  show ?case
  proof (cases "f x st")
    case (Pair r s1)
    show ?thesis
    proof (cases r)
      case (Inl err)
      then show ?thesis using head Pair by simp
    next
      case (Inr y)
      have tail: "case Array_map f xs s1 of
         (Inl err, s') \<Rightarrow> isRouterConfigError err \<and> warnings s' = warnings s1
       | (Inr ys, s') \<Rightarrow> warnings s' = warnings s1 \<and> (\<forall>x \<in> set xs. G x)"
        using Cons.IH [of s1] Cons.prems by simp
      show ?thesis
        using head tail Pair Inr by (auto split: prod.splits sum.splits)
    qed
  qed
qed

lemma register_PROD: "\<not> DEV scope \<Longrightarrow> warnings (register scope e d st) = warnings st"
  by (simp add: register_def split: option.splits)

lemma compile_PROD:
  fixes scope :: "('s::linorder, 'd) scope"
  shows "\<not> DEV scope \<longrightarrow>
     (case createConfigs scope elements base level st of
        (Inl err, st') \<Rightarrow> isRouterConfigError err \<and> warnings st' = warnings st
      | (Inr cs, st') \<Rightarrow> warnings st' = warnings st \<and>
          (\<forall>e \<in> set (concat (map tree elements)). clean scope e))"
    and "\<not> DEV scope \<longrightarrow> isElement element \<longrightarrow>
     (case elementConfig scope element base level st of
        (Inl err, st') \<Rightarrow> isRouterConfigError err \<and> warnings st' = warnings st
      | (Inr c, st') \<Rightarrow> warnings st' = warnings st \<and>
          (\<forall>e \<in> set (subtrees element). clean scope e))"
proof (induction scope elements base level st and scope element base level st
       rule: createConfigs_elementConfig.induct)
  case (1 scope elements base level st)
  show ?case
  proof
    assume prod: "\<not> DEV scope"
    show "case createConfigs scope elements base level st of
        (Inl err, st') \<Rightarrow> isRouterConfigError err \<and> warnings st' = warnings st
      | (Inr cs, st') \<Rightarrow> warnings st' = warnings st \<and>
          (\<forall>e \<in> set (concat (map tree elements)). clean scope e)"
    proof (cases "Array_filter (verifyNoElementErrors scope) elements st")
      case (Pair r1 st1)
      note filtered = Array_filter_PROD [OF prod, where xs = elements and st = st]
      show ?thesis
      proof (cases r1)
        case (Inl err)
        then show ?thesis using Pair filtered by simp
      next
        case (Inr valid)
        have valid: "valid = elements" "st1 = st" "\<forall>e \<in> set elements. isElement e"
          using Pair Inr filtered by simp_all
        obtain sorted where sorted: "sortElementsByDescriptorScore scope elements = Inr sorted"
            "set sorted = set elements"
          using sortElementsByDescriptorScore_elements [OF valid(3)] by blast
        have sorted_el: "\<forall>e \<in> set sorted. isElement e"
          using sorted(2) valid(3) by simp
        note visited = Array_forEach_PROD [OF prod sorted_el, where st = st]
        show ?thesis
        proof (cases "Array_forEach (verifyNoElementWarnings scope) sorted st")
          case (Pair r2 st2)
          note p2 = Pair
          show ?thesis
          proof (cases r2)
            case (Inl err)
            then show ?thesis
              using \<open>Array_filter (verifyNoElementErrors scope) elements st = (r1, st1)\<close> Inr valid sorted(1) p2 visited
              by simp
          next
            case (Inr u)
            note r2 = Inr
            have st2: "st2 = st" "\<forall>e \<in> set sorted. assertNoElementWarnings scope e = Inr ()"
              using p2 Inr visited by simp_all
            have f1: "Array_filter (verifyNoElementErrors scope) elements st = (Inr elements, st)"
              using \<open>Array_filter (verifyNoElementErrors scope) elements st = (r1, st1)\<close>
                \<open>r1 = Inr valid\<close> valid by simp
            have f2: "Array_forEach (verifyNoElementWarnings scope) sorted st = (Inr (), st)"
              using p2 r2 st2(1) by simp
            have step: "case elementConfig scope x base level s of
                (Inl err, s') \<Rightarrow> isRouterConfigError err \<and> warnings s' = warnings s
              | (Inr y, s') \<Rightarrow> warnings s' = warnings s \<and> (\<forall>e \<in> set (subtrees x). clean scope e)"
              if "x \<in> set sorted" for x s
              using "1.IH" [OF f1 [symmetric] refl sorted(1) f2 [symmetric] refl that, of s]
                that prod sorted_el
              by simp
            note mapped = Array_map_raises [where xs = sorted
                and f = "\<lambda>element. elementConfig scope element base level"
                and G = "\<lambda>x. \<forall>e \<in> set (subtrees x). clean scope e" and st = st, OF step]
            have unfold: "createConfigs scope elements base level st =
                Array_map (\<lambda>element. elementConfig scope element base level) sorted st"
              using f1 sorted(1) f2 by simp
            have all: "\<forall>e \<in> set (concat (map tree elements)). clean scope e"
              if sub: "\<forall>x \<in> set sorted. \<forall>e \<in> set (subtrees x). clean scope e"
            proof
              fix e assume "e \<in> set (concat (map tree elements))"
              then obtain x where x: "x \<in> set elements" "e \<in> set (tree x)" by auto
              have "isElement x" using x(1) valid(3) by blast
              then obtain t p c k where el: "x = Element t p c k"
                by (cases x) auto
              show "clean scope e"
              proof (cases "e = x")
                case True
                then show ?thesis
                  using st2(2) sorted(2) x(1) valid(3) by (simp add: clean_def)
              next
                case False
                then have "e \<in> set (subtrees x)" using x(2) el by simp
                then show ?thesis using sub x(1) sorted(2) by blast
              qed
            qed
            show ?thesis
              unfolding unfold using mapped all
              by (auto split: prod.splits sum.splits)
          qed
        qed
      qed
    qed
  qed
next
  case (2 scope uu base level st)
  show ?case by simp
next
  case (3 scope type props children childrenArray base level st)
  show ?case
  proof (cases "childrenArray = []")
    case True
    then show ?thesis
      by (simp add: Let_def register_PROD)
  next
    case False
    show ?thesis
      using "3.IH" [OF refl refl refl False] False
      by (auto simp: Let_def split: prod.splits sum.splits)
  qed
qed

lemma violation_found:
  assumes "isElement e"
    and "assertElementPathHasNoHash scope e \<noteq> Inr () \<or>
         assertElementRedirectHasNoLoader e \<noteq> Inr () \<or>
         assertElementRedirictHasNoChildren e \<noteq> Inr ()"
  shows "\<exists>err. assertNoElementWarnings scope e = Inl err \<and> isRouterConfigError err"
proof -
  obtain t p c k where e: "e = Element t p c k"
    using assms(1) by (cases e) auto
  have "assertNoElementWarnings scope e \<noteq> Inr ()"
    using assms(2) by (auto simp: assertNoElementWarnings_def split: sum.splits)
  then obtain err where "assertNoElementWarnings scope e = Inl err"
    by (cases "assertNoElementWarnings scope e") auto
  then show ?thesis
    using assertNoElementWarnings_Element e by blast
qed

text \<open>
  C3, as amended. Take any element of the raw tree that is a text node, has a hash in its
  path, or is a \<^verbatim>\<open>Redirect\<close> with a loader or with children. When
  \<^verbatim>\<open>import.meta.env.DEV\<close> is set (development), compilation does not raise, and it prints
  the \<^verbatim>\<open>RouterConfigError\<close> of that element through \<^verbatim>\<open>configConsole.warn\<close>, naming the
  element. When it is not set (production), compilation raises a \<^verbatim>\<open>RouterConfigError\<close> to
  the caller and prints nothing.
\<close>

theorem violations_warned_or_raised:
  fixes scope :: "('s::linorder, 'd) scope"
  assumes "e \<in> set (concat (map tree elements))"
    and "assertElementIsNotTextNode e \<noteq> Inr () \<or>
         (isElement e \<and>
           (assertElementPathHasNoHash scope e \<noteq> Inr () \<or>
            assertElementRedirectHasNoLoader e \<noteq> Inr () \<or>
            assertElementRedirictHasNoChildren e \<noteq> Inr ()))"
  shows "(DEV scope \<longrightarrow>
           (\<exists>cs st' err. createConfigs scope elements base level st = (Inr cs, st') \<and>
              (assertNoElementErrors e = Inl err \<or> assertNoElementWarnings scope e = Inl err) \<and>
              isRouterConfigError err \<and>
              ConfigConsole (error_message err) (rootElement scope) [e] \<in> set (warnings st'))) \<and>
         (\<not> DEV scope \<longrightarrow>
           (\<exists>err st'. createConfigs scope elements base level st = (Inl err, st') \<and>
              isRouterConfigError err \<and> warnings st' = warnings st))"
proof (intro conjI impI)
  assume dev: "DEV scope"
  obtain cs st' where run: "createConfigs scope elements base level st = (Inr cs, st')"
      and rep: "reported scope st' e"
    using compile_DEV(1) [of scope elements base level st] dev assms(1) by blast
  have "\<exists>err. (assertNoElementErrors e = Inl err \<or>
              (isElement e \<and> assertNoElementWarnings scope e = Inl err)) \<and> isRouterConfigError err"
  proof (cases e)
    case (Text t)
    then show ?thesis by (simp add: assertNoElementErrors_def)
  next
    case (Element t p c k)
    then have "isElement e" by simp
    moreover have "assertElementIsNotTextNode e = Inr ()" using Element by simp
    ultimately show ?thesis
      using assms(2) violation_found [of e scope] by blast
  qed
  then obtain err where err: "assertNoElementErrors e = Inl err \<or>
              (isElement e \<and> assertNoElementWarnings scope e = Inl err)" "isRouterConfigError err"
    by blast
  then have "ConfigConsole (error_message err) (rootElement scope) [e] \<in> set (warnings st')"
    using rep unfolding reported_def by blast
  then show "\<exists>cs st' err. createConfigs scope elements base level st = (Inr cs, st') \<and>
              (assertNoElementErrors e = Inl err \<or> assertNoElementWarnings scope e = Inl err) \<and>
              isRouterConfigError err \<and>
              ConfigConsole (error_message err) (rootElement scope) [e] \<in> set (warnings st')"
    using run err by blast
next
  assume prod: "\<not> DEV scope"
  have dirty: "\<not> clean scope e"
  proof (cases e)
    case (Text t)
    then show ?thesis by (simp add: clean_def)
  next
    case (Element t p c k)
    then have "isElement e" "assertElementIsNotTextNode e = Inr ()" by simp_all
    then show ?thesis
      using assms(2) violation_found [of e scope] by (auto simp: clean_def)
  qed
  note run = compile_PROD(1) [where scope = scope and elements = elements and base = base and level = level and st = st]
  show "\<exists>err st'. createConfigs scope elements base level st = (Inl err, st') \<and>
              isRouterConfigError err \<and> warnings st' = warnings st"
  proof (cases "createConfigs scope elements base level st")
    case (Pair r st')
    show ?thesis
    proof (cases r)
      case (Inl err)
      then show ?thesis using run prod Pair by (simp del: createConfigs.simps)
    next
      case (Inr cs)
      then have "clean scope e" using run prod Pair assms(1) by (auto simp del: createConfigs.simps)
      then show ?thesis using dirty by simp
    qed
  qed
qed

text \<open>The theorem at a \<^verbatim>\<open>Redirect\<close> with a loader, in development and in production.\<close>

theorem violations_warned_or_raised_witness:
  "(\<exists>cs st' err.
      createConfigs (example_scope True None) [redirect_with_loader] ''/'' 0 empty_state = (Inr cs, st') \<and>
      (assertNoElementErrors redirect_with_loader = Inl err \<or>
       assertNoElementWarnings (example_scope True None) redirect_with_loader = Inl err) \<and>
      isRouterConfigError err \<and>
      ConfigConsole (error_message err) None [redirect_with_loader] \<in> set (warnings st')) \<and>
   (\<exists>err st'.
      createConfigs (example_scope False None) [redirect_with_loader] ''/'' 0 empty_state = (Inl err, st') \<and>
      isRouterConfigError err \<and> warnings st' = [])"
proof -
  have member: "redirect_with_loader \<in> set (concat (map tree [redirect_with_loader]))"
    by (simp add: redirect_with_loader_def)
  have violation: "assertElementIsNotTextNode redirect_with_loader \<noteq> Inr () \<or>
         (isElement redirect_with_loader \<and>
           (assertElementPathHasNoHash scope redirect_with_loader \<noteq> Inr () \<or>
            assertElementRedirectHasNoLoader redirect_with_loader \<noteq> Inr () \<or>
            assertElementRedirictHasNoChildren redirect_with_loader \<noteq> Inr ()))" for scope :: "(int, string) scope"
    by (simp add: redirect_with_loader_def route_def)
  have dev: "DEV (example_scope True None)" and prod: "\<not> DEV (example_scope False None)"
    and root: "rootElement (example_scope True None) = None"
    by (simp_all add: example_scope_def)
  show ?thesis
    using violations_warned_or_raised [OF member violation, of "example_scope True None" "''/''" 0 empty_state]
      violations_warned_or_raised [OF member violation, of "example_scope False None" "''/''" 0 empty_state]
      dev prod root
    by (simp add: empty_state_def)
qed

text \<open>
  C3, as stated, fails: a \<^verbatim>\<open>Redirect\<close> with a loader makes compilation raise in
  production, where the claim has a warning, and gives a warning and no exception in
  development, where the claim has the exception.
\<close>

theorem production_raises_development_warns:
  "fst (createConfig (example_scope False (Some redirect_with_loader))) =
     Inl (RouterConfigError ''There is a Redirect route with a loader. Redirect routes should not load data as they will not render. Please remove the loader to fix this.'') \<and>
   warnings (snd (createConfig (example_scope False (Some redirect_with_loader)))) = [] \<and>
   fst (createConfig (example_scope True (Some redirect_with_loader))) =
     Inr [RedirectConfig Redirect (Some ''old'') (Some (To_path ''/new'')) None None] \<and>
   warnings (snd (createConfig (example_scope True (Some redirect_with_loader)))) =
     [ConfigConsole ''There is a Redirect route with a loader. Redirect routes should not load data as they will not render. Please remove the loader to fix this.''
        (Some redirect_with_loader) [redirect_with_loader]]"
  by code_simp

text \<open>
  C4. The check \<^verbatim>\<open>assertElementWithoutChildrenIsNotRoot\<close> tests \<^verbatim>\<open>children && root\<close>:
  a root without children passes, in development without a warning and in production
  without an exception, and a root that has a child gets the message of the childless
  root, as a warning in development and as the exception in production.
\<close>

theorem root_check_is_inverted:
  "fst (createConfig (example_scope True (Some childless_root))) =
     Inr [Config (Component ''App'') None (Some True) None None None None] \<and>
   warnings (snd (createConfig (example_scope True (Some childless_root)))) = [] \<and>
   fst (createConfig (example_scope False (Some childless_root))) =
     Inr [Config (Component ''App'') None (Some True) None None None None] \<and>
   warnings (snd (createConfig (example_scope True (Some root_with_child)))) =
     [ConfigConsole ''There is a root route without child routes. Please remove the root property to fix this.''
        (Some root_with_child) [root_with_child]] \<and>
   fst (createConfig (example_scope False (Some root_with_child))) =
     Inl (RouterConfigError ''There is a root route without child routes. Please remove the root property to fix this.'')"
  by code_simp

section \<open>Redirect nodes\<close>

lemma Array_map_Inr:
  "Array_map f xs st = (Inr ys, st') \<Longrightarrow> list_all2 (\<lambda>x y. \<exists>s s'. f x s = (Inr y, s')) xs ys"
proof (induction xs arbitrary: st ys st')
  case Nil
  then show ?case by simp
next
  case (Cons x xs)
  then show ?case
    by (fastforce split: prod.splits sum.splits)
qed

lemma Array_map_source:
  "Array_map f xs st = (Inr ys, st') \<Longrightarrow> y \<in> set ys \<Longrightarrow>
   \<exists>x \<in> set xs. \<exists>s s'. f x s = (Inr y, s')"
proof (induction xs arbitrary: st ys st')
  case Nil
  then show ?case by simp
next
  case (Cons x xs)
  obtain z s1 zs where parts: "f x st = (Inr z, s1)" "Array_map f xs s1 = (Inr zs, st')" "ys = z # zs"
    using Cons.prems(1) by (auto split: prod.splits sum.splits)
  show ?case
  proof (cases "y = z")
    case True
    then show ?thesis using parts(1) by auto
  next
    case False
    then have "y \<in> set zs" using Cons.prems(2) parts(3) by simp
    then show ?thesis using Cons.IH [OF parts(2)] by auto
  qed
qed

lemma Array_map_target:
  "Array_map f xs st = (Inr ys, st') \<Longrightarrow> x \<in> set xs \<Longrightarrow>
   \<exists>y \<in> set ys. \<exists>s s'. f x s = (Inr y, s')"
proof (induction xs arbitrary: st ys st')
  case Nil
  then show ?case by simp
next
  case (Cons a xs)
  obtain z s1 zs where parts: "f a st = (Inr z, s1)" "Array_map f xs s1 = (Inr zs, st')" "ys = z # zs"
    using Cons.prems(1) by (auto split: prod.splits sum.splits)
  show ?case
  proof (cases "x = a")
    case True
    then show ?thesis using parts(1,3) by auto
  next
    case False
    then have "x \<in> set xs" using Cons.prems(2) by simp
    then show ?thesis using Cons.IH [OF parts(2)] parts(3) by auto
  qed
qed

lemma valid_sorted_subset:
  assumes "Array_filter (verifyNoElementErrors scope) elements st = (Inr valid, st1)"
    and "sortElementsByDescriptorScore scope valid = Inr sortedElements"
  shows "set sortedElements \<subseteq> set elements"
proof -
  have "set valid \<subseteq> set elements"
    using Array_filter_subset [OF assms(1)] .
  moreover have "set sortedElements = set valid"
    using set_sortElementsByDescriptorScore [OF assms(2)] .
  ultimately show ?thesis by simp
qed

lemma from_redirect_mono:
  "set es \<subseteq> set es' \<Longrightarrow> from_redirect scope es n \<Longrightarrow> from_redirect scope es' n"
  unfolding from_redirect_def by blast

lemma compile_redirects:
  fixes scope :: "('s::linorder, 'd) scope"
  shows "\<forall>cs st'. createConfigs scope elements base level st = (Inr cs, st') \<longrightarrow>
          (\<forall>n \<in> set (concat (map nodes cs)). from_redirect scope (concat (map tree elements)) n)"
    and "\<forall>c st'. elementConfig scope element base level st = (Inr c, st') \<longrightarrow>
          (\<forall>n \<in> set (nodes c). from_redirect scope (tree element) n)"
proof (induction scope elements base level st and scope element base level st
       rule: createConfigs_elementConfig.induct)
  case (1 scope elements base level st)
  show ?case
  proof (intro allI impI ballI)
    fix cs st' n
    assume run: "createConfigs scope elements base level st = (Inr cs, st')"
      and n: "n \<in> set (concat (map nodes cs))"
    obtain valid st1 where f1: "Array_filter (verifyNoElementErrors scope) elements st = (Inr valid, st1)"
      using run by (auto split: prod.splits sum.splits)
    obtain sorted where f2: "sortElementsByDescriptorScore scope valid = Inr sorted"
      using run f1 by (auto split: prod.splits sum.splits)
    obtain u st2 where f3: "Array_forEach (verifyNoElementWarnings scope) sorted st1 = (Inr u, st2)"
      using run f1 f2 by (auto split: prod.splits sum.splits)
    have f4: "Array_map (\<lambda>element. elementConfig scope element base level) sorted st2 = (Inr cs, st')"
      using run f1 f2 f3 by simp
    have sub: "set sorted \<subseteq> set elements"
      using valid_sorted_subset [OF f1 f2] .
    obtain c where c: "c \<in> set cs" "n \<in> set (nodes c)"
      using n by auto
    obtain x s s' where x: "x \<in> set sorted" "elementConfig scope x base level s = (Inr c, s')"
      using Array_map_source [OF f4 c(1)] by blast
    have "from_redirect scope (tree x) n"
      using "1.IH" [OF f1 [symmetric] refl f2 f3 [symmetric] refl x(1), of s] x(2) c(2) by blast
    moreover have "set (tree x) \<subseteq> set (concat (map tree elements))"
      using x(1) sub by auto
    ultimately show "from_redirect scope (concat (map tree elements)) n"
      using from_redirect_mono by blast
  qed
next
  case (2 scope uu base level st)
  show ?case by simp
next
  case (3 scope type props children childrenArray base level st)
  show ?case
  proof (cases "childrenArray = []")
    case True
    then show ?thesis
      by (auto simp: Let_def emit_def from_redirect_def redirect_of_def)
  next
    case False
    show ?thesis
    proof (intro allI impI ballI)
      fix c st' n
      assume run: "elementConfig scope (Element type props children childrenArray) base level st = (Inr c, st')"
        and n: "n \<in> set (nodes c)"
      obtain childConfigs where kids:
          "createConfigs scope childrenArray (resolvePaths scope base (path props)) (level + 1) st = (Inr childConfigs, st')"
          and c: "c = emit type props (if loader props = Some (Value (Bool True))
                     then Some (Fn (ConfigLoader (prefix scope) level)) else loader props)
                  (if props.action props = Some (Value (Bool True))
                     then Some (Fn (ConfigAction (prefix scope))) else props.action props) (Some childConfigs)"
        using run False by (auto simp: Let_def split: prod.splits sum.splits)
      note IH = "3.IH" [OF refl refl refl False]
      show "from_redirect scope (tree (Element type props children childrenArray)) n"
      proof (cases "type = Redirect")
        case True
        then have "n = redirect_of scope props"
          using c n by (simp add: emit_def redirect_of_def)
        then show ?thesis
          using True by (auto simp: from_redirect_def)
      next
        case False
        then have "n = c \<or> n \<in> set (concat (map nodes childConfigs))"
          using c n by (auto simp: emit_def)
        then show ?thesis
        proof
          assume "n = c"
          then show ?thesis using c False by (simp add: emit_def from_redirect_def)
        next
          assume "n \<in> set (concat (map nodes childConfigs))"
          then have "from_redirect scope (concat (map tree childrenArray)) n"
            using IH kids by blast
          moreover have "set (concat (map tree childrenArray)) \<subseteq>
              set (tree (Element type props children childrenArray))"
            by auto
          ultimately show ?thesis
            using from_redirect_mono by blast
        qed
      qed
    qed
  qed
qed

text \<open>
  C6, as amended. Every node of a compiled tree whose type is \<^verbatim>\<open>Redirect\<close> carries no
  loader and no children: it is the object \<^verbatim>\<open>{type, path, to, status, action}\<close> of a
  \<^verbatim>\<open>Redirect\<close> element of the raw tree, and its action is the action of that element,
  with \<^verbatim>\<open>true\<close> replaced by the built-in action.
\<close>

theorem redirect_nodes:
  fixes scope :: "('s::linorder, 'd) scope"
  assumes "createConfigs scope elements base level st = (Inr cs, st')"
    and "n \<in> set (concat (map nodes cs))"
    and "config_type n = Redirect"
  shows "config_loader n = None \<and> config_children n = None \<and>
         (\<exists>ps c k. Element Redirect ps c k \<in> set (concat (map tree elements)) \<and>
            n = RedirectConfig Redirect (path ps) (to ps) (status ps)
                  (if props.action ps = Some (Value (Bool True))
                   then Some (Fn (ConfigAction (prefix scope))) else props.action ps))"
proof -
  have "from_redirect scope (concat (map tree elements)) n"
    using compile_redirects(1) [of scope elements base level st] assms(1,2) by blast
  then obtain ps c k where found: "Element Redirect ps c k \<in> set (concat (map tree elements))"
      "n = redirect_of scope ps"
    using assms(3) unfolding from_redirect_def by blast
  then show ?thesis
    unfolding redirect_of_def by force
qed

text \<open>The theorem at a \<^verbatim>\<open>Redirect\<close> from \<^verbatim>\<open>old\<close> to \<^verbatim>\<open>/new\<close> that has an action.\<close>

theorem redirect_nodes_witness:
  "config_loader (RedirectConfig Redirect (Some ''old'') (Some (To_path ''/new'')) None (Some (Fn (User ''submit'')))) = None \<and>
   config_children (RedirectConfig Redirect (Some ''old'') (Some (To_path ''/new'')) None (Some (Fn (User ''submit'')))) = None \<and>
   (\<exists>ps c k. Element Redirect ps c k \<in> set (concat (map tree [redirect_with_action])) \<and>
      RedirectConfig Redirect (Some ''old'') (Some (To_path ''/new'')) None (Some (Fn (User ''submit''))) =
      RedirectConfig Redirect (path ps) (to ps) (status ps)
        (if props.action ps = Some (Value (Bool True))
         then Some (Fn (ConfigAction (prefix (example_scope True None)))) else props.action ps))"
proof -
  let ?n = "RedirectConfig Redirect (Some ''old'') (Some (To_path ''/new'')) None (Some (Fn (User ''submit'')))"
  have run: "createConfigs (example_scope True None) [redirect_with_action] ''/'' 0 empty_state =
      (Inr [?n], \<lparr>duplicates = [(redirect_with_action, ''/old'')], warnings = []\<rparr>)"
    by code_simp
  have member: "?n \<in> set (concat (map nodes [?n]))" by simp
  have kind: "config_type ?n = Redirect" by simp
  show ?thesis
    using redirect_nodes [OF run member kind] .
qed

text \<open>C6, as stated, fails: the node compiled from a \<^verbatim>\<open>Redirect\<close> element with an action
  carries that action.\<close>

theorem redirect_carries_action:
  "fst (createConfig (example_scope True (Some redirect_with_action))) =
     Inr [RedirectConfig Redirect (Some ''old'') (Some (To_path ''/new'')) None (Some (Fn (User ''submit'')))] \<and>
   config_type (RedirectConfig Redirect (Some ''old'') (Some (To_path ''/new'')) None (Some (Fn (User ''submit'')))) = Redirect \<and>
   config_action (RedirectConfig Redirect (Some ''old'') (Some (To_path ''/new'')) None (Some (Fn (User ''submit'')))) \<noteq> None \<and>
   warnings (snd (createConfig (example_scope True (Some redirect_with_action)))) = []"
  by code_simp

section \<open>The order of the emitted children\<close>

text \<open>
  C5. \<^verbatim>\<open>scores\<close> is a plain object, so the path \<^verbatim>\<open>constructor\<close> reads the inherited
  \<^verbatim>\<open>Object.prototype.constructor\<close>: the loop never stores a score for it, and the
  comparator, which compares that function with a number, answers 0. Two siblings of
  which the second has this path therefore stay in the order of their declaration,
  whatever their scores are.
\<close>

theorem inherited_key_keeps_declared_order:
  fixes scope :: "('s::linorder, 'd) scope"
  assumes "property_key (path p1) \<notin> set Object_prototype"
    and "path p2 = Some ''constructor''"
  shows "sortElementsByDescriptorScore scope [Element t1 p1 c1 k1, Element t2 p2 c2 k2] =
           Inr [Element t1 p1 c1 k1, Element t2 p2 c2 k2]"
proof -
  let ?k1 = "property_key (path p1)"
  let ?scores = "(Map.empty :: string \<rightharpoonup> 's)(?k1 \<mapsto> descriptorScore scope (path p1))"
  have proto: "''constructor'' \<in> set Object_prototype"
    by (simp add: Object_prototype_def)
  then have differ: "?k1 \<noteq> ''constructor''"
    using assms(1) by auto
  have first: "scores_get (Map.empty :: string \<rightharpoonup> 's) ?k1 = Missing"
    using assms(1) by (simp add: scores_get_def)
  have second: "scores_get ?scores ''constructor'' = Inherited ''constructor''"
    using differ proto by (simp add: scores_get_def)
  have filled: "fill_scores scope [Element t1 p1 c1 k1, Element t2 p2 c2 k2] Map.empty = Inr ?scores"
    using first second assms(2) by (simp add: property_key_def)
  have one: "scores_get ?scores ?k1 = Number (descriptorScore scope (path p1))"
    by (simp add: scores_get_def)
  have tie: "compare_scores ?scores (Element t1 p1 c1 k1) (Element t2 p2 c2 k2) = 0"
    using one second assms(2) by (simp add: compare_scores_def property_key_def)
  have two: "scores_get ?scores (property_key (path p2)) = Inherited ''constructor''"
    using second assms(2) by (simp add: property_key_def)
  have ties: "compare_scores ?scores a b = 0"
    if "a \<in> set [Element t1 p1 c1 k1, Element t2 p2 c2 k2]"
       "b \<in> set [Element t1 p1 c1 k1, Element t2 p2 c2 k2]" for a b
    using that one two by (auto simp: compare_scores_def)
  have "consistent (compare_scores ?scores) [Element t1 p1 c1 k1, Element t2 p2 c2 k2]"
    by (simp add: consistent_def ties)
  then show ?thesis
    using filled tie by (simp add: sortElementsByDescriptorScore_def Array_sort_def)
qed

text \<open>The theorem at the siblings \<^verbatim>\<open>:id\<close> and \<^verbatim>\<open>constructor\<close>, where the literal path
  has the higher score.\<close>

theorem inherited_key_keeps_declared_order_witness:
  "sortElementsByDescriptorScore (example_scope True None) [parameter_route, constructor_route] =
     Inr [parameter_route, constructor_route] \<and>
   descriptorScore (example_scope True None) (Some '':id'') <
     descriptorScore (example_scope True None) (Some ''constructor'')"
proof -
  have key: "property_key (path (route (Some '':id''))) \<notin> set Object_prototype"
    by (simp add: property_key_def route_def Object_prototype_def)
  have literal: "path (route (Some ''constructor'')) = Some ''constructor''"
    by (simp add: route_def)
  have score: "descriptorScore (example_scope True None) (Some '':id'') <
     descriptorScore (example_scope True None) (Some ''constructor'')"
    by (simp add: example_scope_def)
  show ?thesis
    using inherited_key_keeps_declared_order [OF key literal, of "example_scope True None"
        "Component ''User''" False "[]" "Component ''Constructor''" False "[]"] score
    by (simp add: parameter_route_def constructor_route_def)
qed

text \<open>The children that compilation emits for these two siblings, in both orders of
  declaration: in the first the scores ascend.\<close>

lemma emitted_in_declared_order:
  "fst (createConfigs (example_scope True None) [parameter_route, constructor_route] ''/'' 0 empty_state) =
     Inr [Config (Component ''User'') (Some '':id'') None None None None None,
          Config (Component ''Constructor'') (Some ''constructor'') None None None None None] \<and>
   fst (createConfigs (example_scope True None) [constructor_route, parameter_route] ''/'' 0 empty_state) =
     Inr [Config (Component ''Constructor'') (Some ''constructor'') None None None None None,
          Config (Component ''User'') (Some '':id'') None None None None None]"
  by code_simp

text \<open>
  For a well keyed list the order is the one of a stable sort by descending score: the
  scores of the sorted elements descend, and the elements of any one score stand as they
  were declared. The emitted children are the configurations of the sorted elements.
\<close>

lemma fill_scores_well_keyed:
  assumes "set xs \<subseteq> set every"
    and "\<forall>e \<in> set every. isElement e"
    and "\<forall>k s. scores k = Some s \<longrightarrow>
           (\<exists>e \<in> set every. property_key (props_path e) = k \<and> s = score scope e)"
  shows "\<exists>scores'. fill_scores scope xs scores = Inr scores' \<and>
           (\<forall>k s. scores' k = Some s \<longrightarrow>
              (\<exists>e \<in> set every. property_key (props_path e) = k \<and> s = score scope e)) \<and>
           (\<forall>e \<in> set xs. property_key (props_path e) \<notin> set Object_prototype \<longrightarrow>
              scores' (property_key (props_path e)) \<noteq> None) \<and>
           (\<forall>k. scores k \<noteq> None \<longrightarrow> scores' k \<noteq> None)"
  using assms
proof (induction xs arbitrary: scores)
  case Nil
  then show ?case by simp
next
  case (Cons x xs)
  have "isElement x" using Cons.prems(1,2) by auto
  then obtain t p c kids where x: "x = Element t p c kids" by (cases x) auto
  let ?key = "property_key (path p)"
  let ?next = "if scores_get scores ?key = Missing
               then scores(?key \<mapsto> descriptorScore scope (path p)) else scores"
  have inv: "\<forall>k s. ?next k = Some s \<longrightarrow>
           (\<exists>e \<in> set every. property_key (props_path e) = k \<and> s = score scope e)"
  proof (intro allI impI)
    fix k s assume ks: "?next k = Some s"
    show "\<exists>e \<in> set every. property_key (props_path e) = k \<and> s = score scope e"
    proof (cases "scores k = Some s")
      case True
      then show ?thesis using Cons.prems(3) by blast
    next
      case False
      then have "k = ?key" "s = descriptorScore scope (path p)"
        using ks by (auto split: if_splits)
      then have "property_key (props_path x) = k \<and> s = score scope x"
        using x by (simp add: score_def)
      moreover have "x \<in> set every" using Cons.prems(1) by simp
      ultimately show ?thesis by blast
    qed
  qed
  have sub: "set xs \<subseteq> set every" using Cons.prems(1) by simp
  obtain scores' where rest: "fill_scores scope xs ?next = Inr scores'"
      "\<forall>k s. scores' k = Some s \<longrightarrow>
          (\<exists>e \<in> set every. property_key (props_path e) = k \<and> s = score scope e)"
      "\<forall>e \<in> set xs. property_key (props_path e) \<notin> set Object_prototype \<longrightarrow>
          scores' (property_key (props_path e)) \<noteq> None"
      "\<forall>k. ?next k \<noteq> None \<longrightarrow> scores' k \<noteq> None"
    using Cons.IH [OF sub Cons.prems(2) inv] by blast
  have run: "fill_scores scope (x # xs) scores = Inr scores'"
    using x rest(1) by simp
  have kept: "\<forall>k. scores k \<noteq> None \<longrightarrow> scores' k \<noteq> None"
    using rest(4) by (auto split: if_splits)
  have head: "?key \<notin> set Object_prototype \<longrightarrow> scores' ?key \<noteq> None"
  proof
    assume "?key \<notin> set Object_prototype"
    then have "?next ?key \<noteq> None"
      by (auto simp: scores_get_def split: option.splits)
    then show "scores' ?key \<noteq> None" using rest(4) by blast
  qed
  show ?case
    using run rest(2,3) kept head x by auto
qed

lemma scores_of_well_keyed:
  assumes "well_keyed scope xs"
  shows "\<exists>scores. fill_scores scope xs Map.empty = Inr scores \<and>
           (\<forall>e \<in> set xs. scores_get scores (property_key (props_path e)) = Number (score scope e))"
proof -
  have els: "\<forall>e \<in> set xs. isElement e"
    and keys: "\<forall>e \<in> set xs. property_key (props_path e) \<notin> set Object_prototype"
    and same: "\<forall>a \<in> set xs. \<forall>b \<in> set xs.
         property_key (props_path a) = property_key (props_path b) \<longrightarrow> score scope a = score scope b"
    using assms unfolding well_keyed_def by blast+
  obtain scores where scores: "fill_scores scope xs Map.empty = Inr scores"
      "\<forall>k s. scores k = Some s \<longrightarrow>
          (\<exists>e \<in> set xs. property_key (props_path e) = k \<and> s = score scope e)"
      "\<forall>e \<in> set xs. property_key (props_path e) \<notin> set Object_prototype \<longrightarrow>
          scores (property_key (props_path e)) \<noteq> None"
    using fill_scores_well_keyed [of xs xs Map.empty scope] els by auto
  have "scores_get scores (property_key (props_path e)) = Number (score scope e)"
    if e: "e \<in> set xs" for e
  proof -
    obtain s where s: "scores (property_key (props_path e)) = Some s"
      using scores(3) keys e by blast
    then obtain e' where "e' \<in> set xs" "property_key (props_path e') = property_key (props_path e)"
        "s = score scope e'"
      using scores(2) by blast
    then have "s = score scope e" using same e by metis
    then show ?thesis using s by (simp add: scores_get_def)
  qed
  then show ?thesis using scores(1) by blast
qed

lemma sort_insert_descending:
  fixes key :: "'a \<Rightarrow> 'k::linorder"
  assumes "\<forall>y \<in> set ys. compare x y = (if key x < key y then 1 else if key y < key x then - 1 else 0)"
    and "sorted_wrt (\<lambda>a b. key b \<le> key a) ys"
  shows "sorted_wrt (\<lambda>a b. key b \<le> key a) (sort_insert compare x ys) \<and>
         (\<forall>k. filter (\<lambda>z. key z = k) (sort_insert compare x ys) =
               (if key x = k then x # filter (\<lambda>z. key z = k) ys else filter (\<lambda>z. key z = k) ys))"
  using assms
proof (induction ys)
  case Nil
  then show ?case by simp
next
  case (Cons y ys)
  show ?case
  proof (cases "compare x y \<le> 0")
    case True
    then have le: "key y \<le> key x"
      using Cons.prems(1) by (auto split: if_splits)
    have "\<forall>z \<in> set ys. key z \<le> key x"
      using le Cons.prems(2) by auto
    then show ?thesis
      using True le Cons.prems(2) by auto
  next
    case False
    then have less: "key x < key y"
      using Cons.prems(1) by (auto split: if_splits)
    have tail: "sorted_wrt (\<lambda>a b. key b \<le> key a) (sort_insert compare x ys)"
        "\<forall>k. filter (\<lambda>z. key z = k) (sort_insert compare x ys) =
               (if key x = k then x # filter (\<lambda>z. key z = k) ys else filter (\<lambda>z. key z = k) ys)"
      using Cons.IH Cons.prems by auto
    have "\<forall>z \<in> set (sort_insert compare x ys). key z \<le> key y"
      using Cons.prems(2) less by (auto simp: set_sort_insert)
    then show ?thesis
      using False less tail by auto
  qed
qed

lemma insertion_sort_descending:
  fixes key :: "'a \<Rightarrow> 'k::linorder"
  assumes "\<forall>a \<in> set xs. \<forall>b \<in> set xs.
      compare a b = (if key a < key b then 1 else if key b < key a then - 1 else 0)"
  shows "sorted_wrt (\<lambda>a b. key b \<le> key a) (foldr (sort_insert compare) xs []) \<and>
         (\<forall>k. filter (\<lambda>z. key z = k) (foldr (sort_insert compare) xs []) =
               filter (\<lambda>z. key z = k) xs)"
  using assms
proof (induction xs)
  case Nil
  then show ?case by simp
next
  case (Cons x xs)
  let ?tail = "foldr (sort_insert compare) xs []"
  have IH: "sorted_wrt (\<lambda>a b. key b \<le> key a) ?tail"
      "\<forall>k. filter (\<lambda>z. key z = k) ?tail = filter (\<lambda>z. key z = k) xs"
    using Cons by auto
  have "set ?tail = set xs"
    by (induction xs) (simp_all add: set_sort_insert)
  then have cmp: "\<forall>y \<in> set ?tail.
      compare x y = (if key x < key y then 1 else if key y < key x then - 1 else 0)"
    using Cons.prems by simp
  show ?case
    using sort_insert_descending [where compare = compare and key = key and x = x
        and ys = ?tail] cmp IH
    by simp
qed

lemma consistent_by_key:
  fixes key :: "'a \<Rightarrow> 'k::linorder"
  assumes "\<forall>a \<in> set xs. \<forall>b \<in> set xs.
      compare a b = (if key a < key b then 1 else if key b < key a then - 1 else 0)"
  shows "consistent compare xs"
  unfolding consistent_def
proof (intro ballI)
  fix a b c
  assume a: "a \<in> set xs" and b: "b \<in> set xs" and c: "c \<in> set xs"
  have aa: "compare a a = 0" using assms a by simp
  have ab: "compare a b = (if key a < key b then 1 else if key b < key a then - 1 else 0)"
    and ba: "compare b a = (if key b < key a then 1 else if key a < key b then - 1 else 0)"
    and bc: "compare b c = (if key b < key c then 1 else if key c < key b then - 1 else 0)"
    and ac: "compare a c = (if key a < key c then 1 else if key c < key a then - 1 else 0)"
    using assms a b c by blast+
  show "compare a a = 0 \<and>
        (compare a b = 0 \<longrightarrow> compare b a = 0) \<and>
        (compare a b = 0 \<and> compare b c = 0 \<longrightarrow> compare a c = 0) \<and>
        (compare a b < 0 \<and> compare b c < 0 \<longrightarrow> compare a c < 0) \<and>
        (compare a b > 0 \<and> compare b c > 0 \<longrightarrow> compare a c > 0)"
    unfolding ab ba bc ac using aa by (auto split: if_splits)
qed

lemma Array_sort_descending:
  fixes key :: "'a \<Rightarrow> 'k::linorder"
  assumes "\<forall>a \<in> set xs. \<forall>b \<in> set xs.
      compare a b = (if key a < key b then 1 else if key b < key a then - 1 else 0)"
  shows "sorted_wrt (\<lambda>a b. key b \<le> key a) (Array_sort engine compare xs) \<and>
         (\<forall>k. filter (\<lambda>z. key z = k) (Array_sort engine compare xs) = filter (\<lambda>z. key z = k) xs)"
proof -
  have "Array_sort engine compare xs = foldr (sort_insert compare) xs []"
    using consistent_by_key [OF assms] by (simp add: Array_sort_def)
  then show ?thesis
    using insertion_sort_descending [OF assms] by simp
qed

lemma sorted_by_descending_score:
  fixes scope :: "('s::linorder, 'd) scope"
  assumes "well_keyed scope xs"
  shows "\<exists>ys. sortElementsByDescriptorScore scope xs = Inr ys \<and>
           sorted_wrt (\<lambda>a b. score scope b \<le> score scope a) ys \<and>
           (\<forall>k. filter (\<lambda>e. score scope e = k) ys = filter (\<lambda>e. score scope e = k) xs)"
proof -
  obtain scores where scores: "fill_scores scope xs Map.empty = Inr scores"
      "\<forall>e \<in> set xs. scores_get scores (property_key (props_path e)) = Number (score scope e)"
    using scores_of_well_keyed [OF assms] by blast
  have cmp: "\<forall>a \<in> set xs. \<forall>b \<in> set xs. compare_scores scores a b =
      (if score scope a < score scope b then 1 else if score scope b < score scope a then - 1 else 0)"
    using scores(2) by (simp add: compare_scores_def)
  show ?thesis
    using Array_sort_descending [where compare = "compare_scores scores" and key = "score scope"
        and xs = xs and engine = "engine_sort scope"] cmp scores(1)
    by (simp add: sortElementsByDescriptorScore_def)
qed

lemma elementConfig_keeps_type_and_path:
  fixes scope :: "('s::linorder, 'd) scope"
  assumes "elementConfig scope e base level s = (Inr c, s')"
  shows "element_type e = Some (config_type c) \<and> props_path e = config_path c"
proof (cases e)
  case (Text t)
  then show ?thesis using assms by simp
next
  case (Element t p ch k)
  then show ?thesis
    using assms by (auto simp: Let_def emit_def split: if_splits prod.splits sum.splits)
qed

lemma Array_filter_valid:
  "Array_filter (verifyNoElementErrors scope) xs st = (Inr ys, st') \<Longrightarrow> ys = filter isElement xs"
proof (induction xs arbitrary: st ys)
  case Nil
  then show ?case by simp
next
  case (Cons x xs)
  obtain keep s1 zs where parts: "verifyNoElementErrors scope x st = (Inr keep, s1)"
      "Array_filter (verifyNoElementErrors scope) xs s1 = (Inr zs, st')"
      "ys = (if keep then x # zs else zs)"
    using Cons.prems by (auto split: prod.splits sum.splits)
  have "keep = isElement x"
    using parts(1)
    by (cases x) (auto simp: verifyNoElementErrors_def assertNoElementErrors_def split: if_splits)
  then show ?case
    using Cons.IH [OF parts(2)] parts(3) by simp
qed

lemma emitted_children_sorted:
  fixes scope :: "('s::linorder, 'd) scope"
  assumes "createConfigs scope elements base level st = (Inr cs, st')"
    and "well_keyed scope (filter isElement elements)"
  shows "\<exists>ys. sorted_wrt (\<lambda>a b. score scope b \<le> score scope a) ys \<and>
           (\<forall>k. filter (\<lambda>e. score scope e = k) ys =
                 filter (\<lambda>e. score scope e = k) (filter isElement elements)) \<and>
           list_all2 (\<lambda>e c. element_type e = Some (config_type c) \<and> props_path e = config_path c) ys cs \<and>
           sorted_wrt (\<lambda>a b. descriptorScore scope (config_path b) \<le> descriptorScore scope (config_path a)) cs"
proof -
  obtain valid st1 where f1: "Array_filter (verifyNoElementErrors scope) elements st = (Inr valid, st1)"
    using assms(1) by (auto split: prod.splits sum.splits)
  have valid: "valid = filter isElement elements"
    using Array_filter_valid [OF f1] .
  obtain ys where f2: "sortElementsByDescriptorScore scope valid = Inr ys"
      and desc: "sorted_wrt (\<lambda>a b. score scope b \<le> score scope a) ys"
      and stable: "\<forall>k. filter (\<lambda>e. score scope e = k) ys = filter (\<lambda>e. score scope e = k) valid"
    using sorted_by_descending_score [OF assms(2)] valid by auto
  obtain u st2 where f3: "Array_forEach (verifyNoElementWarnings scope) ys st1 = (Inr u, st2)"
    using assms(1) f1 f2 by (auto split: prod.splits sum.splits)
  have f4: "Array_map (\<lambda>element. elementConfig scope element base level) ys st2 = (Inr cs, st')"
    using assms(1) f1 f2 f3 by simp
  have pairs: "list_all2 (\<lambda>e c. element_type e = Some (config_type c) \<and> props_path e = config_path c) ys cs"
  proof (rule list_all2_mono [OF Array_map_Inr [OF f4]])
    fix e c
    assume "\<exists>s s'. elementConfig scope e base level s = (Inr c, s')"
    then obtain s s' where "elementConfig scope e base level s = (Inr c, s')" by blast
    then show "element_type e = Some (config_type c) \<and> props_path e = config_path c"
      by (rule elementConfig_keeps_type_and_path)
  qed
  have "map (score scope) ys = map (\<lambda>c. descriptorScore scope (config_path c)) cs"
    using pairs by (induction ys cs rule: list_all2_induct) (simp_all add: score_def)
  moreover have "sorted_wrt (\<lambda>a b. b \<le> a) (map (score scope) ys)"
    using desc by (simp add: sorted_wrt_map)
  ultimately have "sorted_wrt (\<lambda>a b. b \<le> a) (map (\<lambda>c. descriptorScore scope (config_path c)) cs)"
    by simp
  then have "sorted_wrt (\<lambda>a b. descriptorScore scope (config_path b) \<le> descriptorScore scope (config_path a)) cs"
    by (simp add: sorted_wrt_map)
  then show ?thesis
    using desc stable valid pairs by blast
qed

section \<open>Duplicate routes\<close>













section \<open>The built-in loader\<close>

lemma take_is_prefix: "take (length sub) xs = sub \<longleftrightarrow> (\<exists>post. xs = sub @ post)"
proof
  assume "take (length sub) xs = sub"
  then have "xs = sub @ drop (length sub) xs"
    by (metis append_take_drop_id)
  then show "\<exists>post. xs = sub @ post" ..
next
  assume "\<exists>post. xs = sub @ post"
  then show "take (length sub) xs = sub" by auto
qed

lemma String_includes_iff:
  "String_includes s sub \<longleftrightarrow> (\<exists>pre post. s = pre @ sub @ post)"
proof (induction s)
  case Nil
  then show ?case by auto
next
  case (Cons c cs)
  have "(\<exists>pre post. c # cs = pre @ sub @ post) \<longleftrightarrow>
        (\<exists>post. c # cs = sub @ post) \<or> (\<exists>pre post. cs = pre @ sub @ post)"
  proof
    assume "\<exists>pre post. c # cs = pre @ sub @ post"
    then obtain pre post where split: "c # cs = pre @ sub @ post" by blast
    show "(\<exists>post. c # cs = sub @ post) \<or> (\<exists>pre post. cs = pre @ sub @ post)"
    proof (cases pre)
      case Nil
      then show ?thesis using split by auto
    next
      case (Cons a rest)
      then have "cs = rest @ sub @ post" using split by simp
      then show ?thesis by blast
    qed
  next
    assume "(\<exists>post. c # cs = sub @ post) \<or> (\<exists>pre post. cs = pre @ sub @ post)"
    then show "\<exists>pre post. c # cs = pre @ sub @ post"
    proof
      assume "\<exists>post. c # cs = sub @ post"
      then obtain post where "c # cs = [] @ sub @ post" by auto
      then show ?thesis by blast
    next
      assume "\<exists>pre post. cs = pre @ sub @ post"
      then obtain pre post where "c # cs = (c # pre) @ sub @ post" by auto
      then show ?thesis by blast
    qed
  qed
  then show ?case
    using Cons.IH take_is_prefix [of sub "c # cs"] by simp
qed

text \<open>
  C8, as amended. Called with a context that has a request, the built-in loader calls
  \<^verbatim>\<open>fetch\<close> once: a \<^verbatim>\<open>GET\<close> without a body for the prefix followed by the pathname
  and the search string of the request's URL, with the headers
  \<^verbatim>\<open>Accept: application/json\<close> and \<^verbatim>\<open>Range: route=<level>\<close>. If \<^verbatim>\<open>fetch\<close> fails,
  the loader fails with the same reason. When the response comes, the body is decoded as
  JSON exactly when the header \<^verbatim>\<open>content-length\<close> is a number greater than 0 and the
  header \<^verbatim>\<open>content-type\<close> has \<^verbatim>\<open>application/json\<close> somewhere in it, and as text
  otherwise. If decoding fails, the loader fails with the error of decoding, whatever the
  status is. If it gives a value, the loader returns that value when \<^verbatim>\<open>response.ok\<close>
  and throws the response itself when not.
\<close>

theorem builtin_loader:
  assumes "ctx.request c = Some req"
  shows "fst (createConfigLoader rt pfx level c) =
           [Fetch (pfx @ pathname (request.url req) @ search (request.url req)) ''GET'' None
              [(''Accept'', ''application/json''),
               (''Range'', ''route='' @ (if level < 10 ^ 21 then decimal level else exponential rt level))]] \<and>
         snd (createConfigLoader rt pfx level c) =
           (case fetch rt (pfx @ pathname (request.url req) @ search (request.url req)) ''GET'' None
                   [(''Accept'', ''application/json''),
                    (''Range'', ''route='' @ (if level < 10 ^ 21 then decimal level else exponential rt level))] of
              Pending \<Rightarrow> Pending
            | Rejected e \<Rightarrow> Rejected e
            | Fulfilled response \<Rightarrow>
                (case (if (\<exists>s n. map_of (headers response) ''content-length'' = Some s \<and>
                                 ToNumber rt s = Some n \<and> 0 < n) \<and>
                          (\<exists>t pre post. map_of (headers response) ''content-type'' = Some t \<and>
                                 t = pre @ ''application/json'' @ post)
                       then json_body rt response else text_body rt response) of
                   Pending \<Rightarrow> Pending
                 | Rejected e \<Rightarrow> Rejected e
                 | Fulfilled v \<Rightarrow> if ok response then Fulfilled v else Rejected (Response response)))"
proof -
  have low: "map to_lower ''content-length'' = ''content-length''"
     "map to_lower ''content-type'' = ''content-type''" by code_simp+
  have get: "headers_get hs ''content-length'' = map_of hs ''content-length''"
     "headers_get hs ''content-type'' = map_of hs ''content-type''" for hs
    unfolding headers_get_def low by (rule refl)+
  have len: "greater_zero rt (headers_get hs ''content-length'') \<longleftrightarrow>
      (\<exists>s n. map_of hs ''content-length'' = Some s \<and> ToNumber rt s = Some n \<and> 0 < n)" for hs
    unfolding get by (auto simp: greater_zero_def split: option.splits)
  have type: "includes_json (headers_get hs ''content-type'') \<longleftrightarrow>
      (\<exists>t pre post. map_of hs ''content-type'' = Some t \<and> t = pre @ ''application/json'' @ post)" for hs
    unfolding get by (auto simp: includes_json_def String_includes_iff split: option.splits)
  have decoded: "decode rt ''content-type'' response =
      (case (if (\<exists>s n. map_of (headers response) ''content-length'' = Some s \<and>
                       ToNumber rt s = Some n \<and> 0 < n) \<and>
                (\<exists>t pre post. map_of (headers response) ''content-type'' = Some t \<and>
                       t = pre @ ''application/json'' @ post)
             then json_body rt response else text_body rt response) of
         Pending \<Rightarrow> Pending
       | Rejected e \<Rightarrow> Rejected e
       | Fulfilled v \<Rightarrow> if ok response then Fulfilled v else Rejected (Response response))"
    for response
    unfolding decode_def Let_def len type by (rule refl)
  show ?thesis
    unfolding createConfigLoader_def assms Let_def http_method_def Number_toString_def decoded
      option.case fst_conv snd_conv
    by (rule conjI; rule refl)
qed

text \<open>The theorem at the request for \<^verbatim>\<open>/users?page=2\<close>, with the prefix \<^verbatim>\<open>/api\<close> at
  level 2: a JSON answer, a text answer, a JSON answer of length 0, which is decoded as
  text, and an answer whose status is not successful.\<close>

theorem builtin_loader_witness:
  "createConfigLoader example_runtime ''/api'' 2 request_context =
     ([Fetch ''/api/users?page=2'' ''GET'' None
         [(''Accept'', ''application/json''), (''Range'', ''route=2'')]],
      Fulfilled (Object ''{users: [ada, bob]}'')) \<and>
   snd (createConfigLoader (answering text_response) ''/api'' 2 request_context) =
     Fulfilled (Str ''ada, bob'') \<and>
   snd (createConfigLoader (answering empty_response) ''/api'' 2 request_context) =
     Fulfilled (Str '''') \<and>
   snd (createConfigLoader (answering failed_response) ''/api'' 2 request_context) =
     Rejected (Response failed_response)"
proof -
  have req: "ctx.request request_context = Some users_request"
    by (simp add: request_context_def)
  have dec: "decimal 2 = ''2''" by code_simp
  have json: "String_includes ''application/json; charset=utf-8'' ''application/json''"
      "String_includes ''application/json'' ''application/json''"
      "\<not> String_includes ''text/plain'' ''application/json''"
    by code_simp+
  note found = json [unfolded String_includes_iff]
  have "createConfigLoader example_runtime ''/api'' 2 request_context =
     ([Fetch ''/api/users?page=2'' ''GET'' None
         [(''Accept'', ''application/json''), (''Range'', ''route=2'')]],
      Fulfilled (Object ''{users: [ada, bob]}''))"
    using builtin_loader [OF req, of example_runtime "''/api''" 2] dec found
    by (simp add: prod_eq_iff example_runtime_def users_request_def users_response_def)
  moreover have "snd (createConfigLoader (answering text_response) ''/api'' 2 request_context) =
     Fulfilled (Str ''ada, bob'')"
    using builtin_loader [OF req, of "answering text_response" "''/api''" 2] found
    by (simp add: answering_def example_runtime_def text_response_def)
  moreover have "snd (createConfigLoader (answering empty_response) ''/api'' 2 request_context) =
     Fulfilled (Str '''')"
    using builtin_loader [OF req, of "answering empty_response" "''/api''" 2] found
    by (simp add: answering_def example_runtime_def empty_response_def)
  moreover have "snd (createConfigLoader (answering failed_response) ''/api'' 2 request_context) =
     Rejected (Response failed_response)"
    using builtin_loader [OF req, of "answering failed_response" "''/api''" 2] found
    by (simp add: answering_def example_runtime_def failed_response_def)
  ultimately show ?thesis by simp
qed

text \<open>C8, as stated, fails: the status of the answer is not successful, and the loader
  does not throw the response, because decoding its body as JSON has failed before the
  status is looked at.\<close>

theorem undecodable_body_hides_the_response:
  "fetch (answering malformed_response) ''/api/users?page=2'' ''GET'' None
     [(''Accept'', ''application/json''), (''Range'', ''route=2'')] = Fulfilled malformed_response \<and>
   ok malformed_response = False \<and>
   createConfigLoader (answering malformed_response) ''/api'' 2 request_context =
     ([Fetch ''/api/users?page=2'' ''GET'' None
         [(''Accept'', ''application/json''), (''Range'', ''route=2'')]],
      Rejected (Error ''SyntaxError: Unexpected token <''))"
proof -
  have dec: "decimal 2 = ''2''" by code_simp
  have json: "includes_json (Some ''application/json'')" by code_simp
  have low: "map to_lower ''content-length'' = ''content-length''"
     "map to_lower ''content-type'' = ''content-type''" by code_simp+
  have get: "headers_get hs ''content-length'' = map_of hs ''content-length''"
     "headers_get hs ''content-type'' = map_of hs ''content-type''" for hs
    unfolding headers_get_def low by (rule refl)+
  show ?thesis
    using dec json
    by (simp add: createConfigLoader_def decode_def get greater_zero_def http_method_def
        Number_toString_def answering_def example_runtime_def request_context_def
        users_request_def malformed_response_def)
qed


section \<open>The loading phase\<close>

lemma createLoaders_from_chain:
  "createLoaders_from rt rd opts m (results, events) =
     (results @ concat (map (\<lambda>x. fst (loader_step rt rd opts x)) (chain m)),
      events @ concat (map (\<lambda>x. snd (loader_step rt rd opts x)) (chain m)))"
proof (induction rt rd opts m "(results, events)" arbitrary: results events
       rule: createLoaders_from.induct)
  case (1 rt rd opts c s p "next" results events)
  obtain pushed caused where step: "loader_step rt rd opts (Match c s p next) = (pushed, caused)"
    by (cases "loader_step rt rd opts (Match c s p next)") auto
  show ?case
  proof (cases "next")
    case None
    then show ?thesis using step by simp
  next
    case (Some matched)
    have "createLoaders_from rt rd opts matched (results @ pushed, events @ caused) =
       ((results @ pushed) @ concat (map (\<lambda>x. fst (loader_step rt rd opts x)) (chain matched)),
        (events @ caused) @ concat (map (\<lambda>x. snd (loader_step rt rd opts x)) (chain matched)))"
      using "1.hyps" [OF step [symmetric] refl Some] .
    then show ?thesis using step Some by simp
  qed
qed

lemma createLoaders_segments:
  "createLoaders rt rd opts =
     (concat (map (\<lambda>m. fst (loader_step rt rd opts m)) (segments rd)),
      concat (map (\<lambda>m. snd (loader_step rt rd opts m)) (segments rd)))"
  by (simp add: createLoaders_def segments_def createLoaders_from_chain split: option.splits)

lemma find_loader_None:
  "find_loader rt (loaders opts) m = None \<longleftrightarrow>
     \<not> (\<exists>e \<in> set (cached opts). \<not> dirty e \<and> isEquivalentMatch rt m (match e))"
  by (auto simp: find_loader_def cached_def find_None_iff split: option.splits)

lemma find_loader_Some:
  "find_loader rt (loaders opts) m = Some e \<Longrightarrow>
     e \<in> set (cached opts) \<and> \<not> dirty e \<and> isEquivalentMatch rt m (match e)"
  by (auto simp: find_loader_def cached_def find_Some_iff split: option.splits)

text \<open>
  C1. \<^verbatim>\<open>createLoaders\<close> goes down the chain and handles each match on its own. For a
  match with a loader, it reuses an entry of the cache if and only if the cache has an
  entry that is not dirty and whose match is equivalent: then the result is such an
  entry and nothing is called. Otherwise the result is a new entry, not dirty, with a
  new promise, a resource made from it and a new controller, and the events are those
  of the promise, which calls the loader, when it is a function, once the action is
  fulfilled.
\<close>

theorem loaders_reused_or_created:
  assumes "config_loader (match_config m) = Some ld" and "truthy_handler (Some ld)"
  shows "createLoaders rt rd opts =
           (concat (map (\<lambda>m. fst (loader_step rt rd opts m)) (segments rd)),
            concat (map (\<lambda>m. snd (loader_step rt rd opts m)) (segments rd))) \<and>
         ((\<exists>e \<in> set (cached opts). \<not> dirty e \<and> isEquivalentMatch rt m (match e)) \<longrightarrow>
            (\<exists>e \<in> set (cached opts). \<not> dirty e \<and> isEquivalentMatch rt m (match e) \<and>
               loader_step rt rd opts m = ([e], []))) \<and>
         (\<not> (\<exists>e \<in> set (cached opts). \<not> dirty e \<and> isEquivalentMatch rt m (match e)) \<longrightarrow>
            loader_step rt rd opts m =
              ([\<lparr>dirty = False, match = m,
                 promise = snd (createLoaderPromise rt (action opts) ld m (request rd)),
                 resource = createResource rt
                   (snd (createLoaderPromise rt (action opts) ld m (request rd))) (scheduler opts),
                 controller = AbortController (request.signal (request rd))\<rparr>],
               fst (createLoaderPromise rt (action opts) ld m (request rd))) \<and>
            (\<forall>f a. ld = Fn f \<longrightarrow> await_action (action opts) = Fulfilled a \<longrightarrow>
               Invoke f (loader_context m (request rd)) \<in>
                 set (fst (createLoaderPromise rt (action opts) ld m (request rd)))))"
proof (intro conjI impI)
  show "createLoaders rt rd opts =
           (concat (map (\<lambda>m. fst (loader_step rt rd opts m)) (segments rd)),
            concat (map (\<lambda>m. snd (loader_step rt rd opts m)) (segments rd)))"
    by (rule createLoaders_segments)
next
  assume "\<exists>e \<in> set (cached opts). \<not> dirty e \<and> isEquivalentMatch rt m (match e)"
  then obtain e where e: "find_loader rt (loaders opts) m = Some e"
    using find_loader_None [of rt opts m] by (cases "find_loader rt (loaders opts) m") auto
  then have "loader_step rt rd opts m = ([e], [])"
    using assms by (simp add: loader_step_def)
  then show "\<exists>e \<in> set (cached opts). \<not> dirty e \<and> isEquivalentMatch rt m (match e) \<and>
               loader_step rt rd opts m = ([e], [])"
    using find_loader_Some [OF e] by blast
next
  assume "\<not> (\<exists>e \<in> set (cached opts). \<not> dirty e \<and> isEquivalentMatch rt m (match e))"
  then have "find_loader rt (loaders opts) m = None"
    using find_loader_None [of rt opts m] by simp
  then show "loader_step rt rd opts m =
              ([\<lparr>dirty = False, match = m,
                 promise = snd (createLoaderPromise rt (action opts) ld m (request rd)),
                 resource = createResource rt
                   (snd (createLoaderPromise rt (action opts) ld m (request rd))) (scheduler opts),
                 controller = AbortController (request.signal (request rd))\<rparr>],
               fst (createLoaderPromise rt (action opts) ld m (request rd)))"
    using assms by (simp add: loader_step_def split: prod.splits)
next
  show "\<forall>f a. ld = Fn f \<longrightarrow> await_action (action opts) = Fulfilled a \<longrightarrow>
               Invoke f (loader_context m (request rd)) \<in>
                 set (fst (createLoaderPromise rt (action opts) ld m (request rd)))"
    by (auto simp: createLoaderPromise_def await_loader_def split: prod.splits)
qed

text \<open>The theorem at a chain of one match: with an equivalent entry in the cache, and with
  the same entry marked dirty.\<close>

theorem loaders_reused_or_created_witness:
  "createLoaders example_runtime (navigation users_match) (with_cache [cached_entry]) =
     ([cached_entry], []) \<and>
   createLoaders example_runtime (navigation users_match) (with_cache [cached_entry\<lparr>dirty := True\<rparr>]) =
     ([\<lparr>dirty = False, match = users_match, promise = Fulfilled (Object ''users''),
        resource = Fulfilled (Object ''users''),
        controller = AbortController (AbortSignal ''navigation'')\<rparr>],
      [AwaitedAction, Invoke (User ''loadUsers'') (loader_context users_match users_request)])"
proof -
  have ld: "config_loader (match_config users_match) = Some (Fn (User ''loadUsers''))"
    by (simp add: users_match_def)
  have truthy: "truthy_handler (Some (Fn (User ''loadUsers'')))"
    by simp
  have segs: "segments (navigation users_match) = [users_match]"
    by (simp add: segments_def navigation_def users_match_def)
  have hit: "\<exists>e \<in> set (cached (with_cache [cached_entry])).
      \<not> dirty e \<and> isEquivalentMatch example_runtime users_match (match e)"
    by (simp add: cached_def with_cache_def cached_entry_def example_runtime_def)
  have miss: "\<not> (\<exists>e \<in> set (cached (with_cache [cached_entry\<lparr>dirty := True\<rparr>])).
      \<not> dirty e \<and> isEquivalentMatch example_runtime users_match (match e))"
    by (simp add: cached_def with_cache_def cached_entry_def example_runtime_def)
  have promise: "createLoaderPromise example_runtime None (Fn (User ''loadUsers'')) users_match users_request =
      ([AwaitedAction, Invoke (User ''loadUsers'') (loader_context users_match users_request)],
       Fulfilled (Object ''users''))"
    by (simp add: createLoaderPromise_def await_loader_def await_action_def example_runtime_def)
  note reuse = loaders_reused_or_created [OF ld truthy, of example_runtime "navigation users_match"
      "with_cache [cached_entry]"]
  note create = loaders_reused_or_created [OF ld truthy, of example_runtime "navigation users_match"
      "with_cache [cached_entry\<lparr>dirty := True\<rparr>]"]
  have "loader_step example_runtime (navigation users_match) (with_cache [cached_entry]) users_match =
      ([cached_entry], [])"
    using reuse hit by (auto simp: cached_def with_cache_def)
  then have first: "createLoaders example_runtime (navigation users_match) (with_cache [cached_entry]) =
     ([cached_entry], [])"
    using reuse segs by simp
  have "loader_step example_runtime (navigation users_match) (with_cache [cached_entry\<lparr>dirty := True\<rparr>])
      users_match =
     ([\<lparr>dirty = False, match = users_match, promise = Fulfilled (Object ''users''),
        resource = Fulfilled (Object ''users''),
        controller = AbortController (AbortSignal ''navigation'')\<rparr>],
      [AwaitedAction, Invoke (User ''loadUsers'') (loader_context users_match users_request)])"
    using create miss promise
    by (simp add: with_cache_def navigation_def users_request_def example_runtime_def)
  then have second: "createLoaders example_runtime (navigation users_match)
      (with_cache [cached_entry\<lparr>dirty := True\<rparr>]) =
     ([\<lparr>dirty = False, match = users_match, promise = Fulfilled (Object ''users''),
        resource = Fulfilled (Object ''users''),
        controller = AbortController (AbortSignal ''navigation'')\<rparr>],
      [AwaitedAction, Invoke (User ''loadUsers'') (loader_context users_match users_request)])"
    using create segs by simp
  show ?thesis using first second by simp
qed

lemma awaited_first_append:
  assumes "awaited_first xs" "awaited_first ys"
  shows "awaited_first (xs @ ys)"
  unfolding awaited_first_def
proof (intro allI impI)
  fix i f c
  assume i: "i < length (xs @ ys)" and at: "(xs @ ys) ! i = Invoke f c"
  show "0 < i \<and> (xs @ ys) ! (i - 1) = AwaitedAction"
  proof (cases "i < length xs")
    case True
    then have "xs ! i = Invoke f c" using at by (simp add: nth_append)
    then have "0 < i \<and> xs ! (i - 1) = AwaitedAction"
      using assms(1) True unfolding awaited_first_def by blast
    moreover have "i - 1 < length xs" using True by simp
    ultimately show ?thesis by (simp add: nth_append)
  next
    case False
    then have j: "i - length xs < length ys" "ys ! (i - length xs) = Invoke f c"
      using i at by (simp_all add: nth_append)
    then have "0 < i - length xs \<and> ys ! (i - length xs - 1) = AwaitedAction"
      using assms(2) unfolding awaited_first_def by blast
    then show ?thesis using False by (auto simp: nth_append)
  qed
qed

lemma awaited_first_concat:
  "\<forall>xs \<in> set xss. awaited_first xs \<Longrightarrow> awaited_first (concat xss)"
proof (induction xss)
  case Nil
  then show ?case by (simp add: awaited_first_def)
next
  case (Cons xs xss)
  then show ?case using awaited_first_append [of xs "concat xss"] by simp
qed

lemma call_fn_no_invoke: "Invoke f c \<notin> set (fst (call_fn rt g x))"
  by (cases g) (auto simp: createConfigLoader_def createConfigAction_def Let_def split: option.splits)

lemma createLoaderPromise_events:
  "fst (createLoaderPromise rt act ld m req) = [] \<or>
   (\<exists>rest. fst (createLoaderPromise rt act ld m req) = AwaitedAction # rest \<and>
      (\<forall>i < length rest. \<forall>f c. rest ! i = Invoke f c \<longrightarrow> i = 0 \<and> (\<exists>a. await_action act = Fulfilled a)))"
proof (cases "await_action act")
  case (Fulfilled a)
  show ?thesis
  proof (cases ld)
    case (Fn g)
    obtain inner result where call: "call_fn rt g (loader_context m req) = (inner, result)"
      by (cases "call_fn rt g (loader_context m req)") auto
    have "\<forall>f c. Invoke f c \<notin> set inner"
      using call_fn_no_invoke [of _ _ rt g "loader_context m req"] call by simp
    then have "\<forall>i < length inner. \<forall>f c. inner ! i \<noteq> Invoke f c"
      by (metis nth_mem)
    then have "\<forall>i < Suc (length inner). \<forall>f c.
        (Invoke g (loader_context m req) # inner) ! i = Invoke f c \<longrightarrow> i = 0"
      by (auto simp: nth_Cons split: nat.splits)
    then show ?thesis
      using Fulfilled Fn call by (simp add: createLoaderPromise_def await_loader_def)
  next
    case (Value v)
    then show ?thesis using Fulfilled by (simp add: createLoaderPromise_def await_loader_def)
  next
    case (Promise p)
    then show ?thesis using Fulfilled by (simp add: createLoaderPromise_def await_loader_def)
  qed
next
  case (Rejected e)
  then show ?thesis by (simp add: createLoaderPromise_def)
next
  case Pending
  then show ?thesis by (simp add: createLoaderPromise_def)
qed

lemma loader_step_events:
  "awaited_first (snd (loader_step rt rd opts m)) \<and>
   (\<forall>f c. Invoke f c \<in> set (snd (loader_step rt rd opts m)) \<longrightarrow>
      (\<exists>a. await_action (action opts) = Fulfilled a))"
proof -
  have shape: "awaited_first (fst (createLoaderPromise rt act ld m req)) \<and>
      (\<forall>f c. Invoke f c \<in> set (fst (createLoaderPromise rt act ld m req)) \<longrightarrow>
         (\<exists>a. await_action act = Fulfilled a))" for act ld req
  proof -
    consider "fst (createLoaderPromise rt act ld m req) = []"
      | rest where "fst (createLoaderPromise rt act ld m req) = AwaitedAction # rest"
         "\<forall>i < length rest. \<forall>f c. rest ! i = Invoke f c \<longrightarrow> i = 0 \<and> (\<exists>a. await_action act = Fulfilled a)"
      using createLoaderPromise_events [of rt act ld m req] by blast
    then show ?thesis
    proof cases
      case 1
      then show ?thesis by (simp add: awaited_first_def)
    next
      case 2
      have "awaited_first (AwaitedAction # rest)"
        unfolding awaited_first_def
      proof (intro allI impI)
        fix i f c
        assume "i < length (AwaitedAction # rest)" "(AwaitedAction # rest) ! i = Invoke f c"
        then obtain j where j: "i = Suc j" "j < length rest" "rest ! j = Invoke f c"
          by (cases i) auto
        then have "j = 0" using 2(2) by blast
        then show "0 < i \<and> (AwaitedAction # rest) ! (i - 1) = AwaitedAction"
          using j by simp
      qed
      moreover have "\<exists>a. await_action act = Fulfilled a" if "Invoke f c \<in> set (AwaitedAction # rest)" for f c
      proof -
        from that have "Invoke f c \<in> set rest" by simp
        then obtain j where "j < length rest" "rest ! j = Invoke f c"
          by (auto simp: in_set_conv_nth)
        then show ?thesis using 2(2) by blast
      qed
      ultimately show ?thesis using 2(1) by simp
    qed
  qed
  show ?thesis
  proof (cases "config_loader (match_config m)")
    case None
    then show ?thesis by (simp add: loader_step_def awaited_first_def)
  next
    case (Some ld)
    show ?thesis
    proof (cases "truthy_handler (Some ld) \<and> find_loader rt (loaders opts) m = None")
      case True
      then have "snd (loader_step rt rd opts m) =
          fst (createLoaderPromise rt (action opts) ld m (request rd))"
        using Some by (simp add: loader_step_def split: prod.splits)
      then show ?thesis using shape [of "action opts" ld "request rd"] by simp
    next
      case False
      then have "snd (loader_step rt rd opts m) = []"
        using Some by (auto simp: loader_step_def split: option.splits)
      then show ?thesis by (simp add: awaited_first_def)
    qed
  qed
qed

lemma await_action_Fulfilled:
  "(\<exists>a. await_action act = Fulfilled a) \<longleftrightarrow> act = None \<or> (\<exists>a. act = Some (Fulfilled a))"
  by (cases act) (auto simp: await_action_def)

lemma loader_step_pending:
  assumes "action opts = Some Pending"
  shows "snd (loader_step rt rd opts m) = [] \<and>
         (\<forall>entry \<in> set (fst (loader_step rt rd opts m)).
            entry \<in> set (cached opts) \<or> promise entry = Pending)"
proof (cases "config_loader (match_config m)")
  case None
  then show ?thesis by (simp add: loader_step_def)
next
  case (Some ld)
  show ?thesis
  proof (cases "find_loader rt (loaders opts) m")
    case None
    then show ?thesis
      using Some assms by (simp add: loader_step_def createLoaderPromise_def await_action_def)
  next
    case (Some e)
    then show ?thesis
      using \<open>config_loader (match_config m) = Some ld\<close> find_loader_Some [OF Some]
      by (simp add: loader_step_def)
  qed
qed

lemma loader_step_rejected:
  assumes "action opts = Some (Rejected r)"
  shows "(\<forall>f c. Invoke f c \<notin> set (snd (loader_step rt rd opts m))) \<and>
         (\<forall>entry \<in> set (fst (loader_step rt rd opts m)).
            entry \<in> set (cached opts) \<or> promise entry = Rejected r)"
proof (cases "config_loader (match_config m)")
  case None
  then show ?thesis by (simp add: loader_step_def)
next
  case (Some ld)
  show ?thesis
  proof (cases "find_loader rt (loaders opts) m")
    case None
    then show ?thesis
      using Some assms by (simp add: loader_step_def createLoaderPromise_def await_action_def)
  next
    case (Some e)
    then show ?thesis
      using \<open>config_loader (match_config m) = Some ld\<close> find_loader_Some [OF Some]
      by (simp add: loader_step_def)
  qed
qed

text \<open>
  C2. The loaders of a navigation wait for its action. As long as the promise of the
  action has not settled, nothing happens: there is no event, and the promise of every
  new entry is pending. If the action is rejected, no loader is called, and the promise
  of every new entry is rejected with the reason of the action. So a loader is called only
  when there is no action or when the action is fulfilled, and each call comes right
  after the end of an \<^verbatim>\<open>await action\<close>.
\<close>

theorem action_precedes_loaders:
  "(action opts = Some Pending \<longrightarrow>
      snd (createLoaders rt rd opts) = [] \<and>
      (\<forall>entry \<in> set (fst (createLoaders rt rd opts)).
         entry \<in> set (cached opts) \<or> promise entry = Pending)) \<and>
   (\<forall>r. action opts = Some (Rejected r) \<longrightarrow>
      (\<forall>f c. Invoke f c \<notin> set (snd (createLoaders rt rd opts))) \<and>
      (\<forall>entry \<in> set (fst (createLoaders rt rd opts)).
         entry \<in> set (cached opts) \<or> promise entry = Rejected r)) \<and>
   (\<forall>i f c. i < length (snd (createLoaders rt rd opts)) \<longrightarrow>
      snd (createLoaders rt rd opts) ! i = Invoke f c \<longrightarrow>
      (action opts = None \<or> (\<exists>a. action opts = Some (Fulfilled a))) \<and>
      0 < i \<and> snd (createLoaders rt rd opts) ! (i - 1) = AwaitedAction)"
proof -
  have pending: "snd (createLoaders rt rd opts) = [] \<and>
      (\<forall>entry \<in> set (fst (createLoaders rt rd opts)).
         entry \<in> set (cached opts) \<or> promise entry = Pending)"
    if "action opts = Some Pending"
    using loader_step_pending [OF that] by (auto simp: createLoaders_segments)
  have rejected: "(\<forall>f c. Invoke f c \<notin> set (snd (createLoaders rt rd opts))) \<and>
      (\<forall>entry \<in> set (fst (createLoaders rt rd opts)).
         entry \<in> set (cached opts) \<or> promise entry = Rejected r)"
    if "action opts = Some (Rejected r)" for r
    using loader_step_rejected [OF that] by (auto simp: createLoaders_segments)
  have fulfilled: "(action opts = None \<or> (\<exists>a. action opts = Some (Fulfilled a))) \<and>
      0 < i \<and> snd (createLoaders rt rd opts) ! (i - 1) = AwaitedAction"
    if i: "i < length (snd (createLoaders rt rd opts))"
      and at: "snd (createLoaders rt rd opts) ! i = Invoke f c" for i f c
  proof -
    let ?events = "concat (map (\<lambda>m. snd (loader_step rt rd opts m)) (segments rd))"
    have events: "snd (createLoaders rt rd opts) = ?events"
      by (simp add: createLoaders_segments)
    have "awaited_first ?events"
      by (rule awaited_first_concat) (simp add: loader_step_events)
    then have first: "0 < i \<and> ?events ! (i - 1) = AwaitedAction"
      using i at unfolding events awaited_first_def by blast
    have "Invoke f c \<in> set ?events"
      using i at unfolding events by (metis nth_mem)
    then obtain m where "Invoke f c \<in> set (snd (loader_step rt rd opts m))"
      by auto
    then have "\<exists>a. await_action (action opts) = Fulfilled a"
      using loader_step_events [of rt rd opts m] by blast
    then have "action opts = None \<or> (\<exists>a. action opts = Some (Fulfilled a))"
      by (simp add: await_action_Fulfilled)
    then show ?thesis using first events by simp
  qed
  show ?thesis
    using pending rejected fulfilled by blast
qed

text \<open>The theorem at a navigation with an empty cache whose action is pending, rejected,
  and fulfilled.\<close>

theorem action_precedes_loaders_witness:
  "createLoaders example_runtime (navigation users_match) (after_action Pending) =
     ([\<lparr>dirty = False, match = users_match, promise = Pending, resource = Pending,
        controller = AbortController (AbortSignal ''navigation'')\<rparr>], []) \<and>
   createLoaders example_runtime (navigation users_match) (after_action (Rejected (Error ''not saved''))) =
     ([\<lparr>dirty = False, match = users_match, promise = Rejected (Error ''not saved''),
        resource = Rejected (Error ''not saved''),
        controller = AbortController (AbortSignal ''navigation'')\<rparr>], [AwaitedAction]) \<and>
   snd (createLoaders example_runtime (navigation users_match) (after_action (Fulfilled (Object ''saved'')))) =
     [AwaitedAction, Invoke (User ''loadUsers'') (loader_context users_match users_request)] \<and>
   (action (after_action (Fulfilled (Object ''saved''))) = None \<or>
    (\<exists>a. action (after_action (Fulfilled (Object ''saved''))) = Some (Fulfilled a)))"
proof -
  have pending: "createLoaders example_runtime (navigation users_match) (after_action Pending) =
     ([\<lparr>dirty = False, match = users_match, promise = Pending, resource = Pending,
        controller = AbortController (AbortSignal ''navigation'')\<rparr>], [])"
    by (simp add: createLoaders_def navigation_def users_match_def loader_step_def find_loader_def
        after_action_def createLoaderPromise_def await_action_def example_runtime_def users_request_def)
  have rejected: "createLoaders example_runtime (navigation users_match)
       (after_action (Rejected (Error ''not saved''))) =
     ([\<lparr>dirty = False, match = users_match, promise = Rejected (Error ''not saved''),
        resource = Rejected (Error ''not saved''),
        controller = AbortController (AbortSignal ''navigation'')\<rparr>], [AwaitedAction])"
    by (simp add: createLoaders_def navigation_def users_match_def loader_step_def find_loader_def
        after_action_def createLoaderPromise_def await_action_def example_runtime_def users_request_def)
  have run: "snd (createLoaders example_runtime (navigation users_match)
       (after_action (Fulfilled (Object ''saved'')))) =
      [AwaitedAction, Invoke (User ''loadUsers'') (loader_context users_match users_request)]"
    by (simp add: createLoaders_def navigation_def users_match_def loader_step_def find_loader_def
        after_action_def createLoaderPromise_def await_loader_def await_action_def example_runtime_def)
  have len: "1 < length (snd (createLoaders example_runtime (navigation users_match)
       (after_action (Fulfilled (Object ''saved'')))))"
    and at: "snd (createLoaders example_runtime (navigation users_match)
       (after_action (Fulfilled (Object ''saved'')))) ! 1 =
      Invoke (User ''loadUsers'') (loader_context users_match users_request)"
    using run by simp_all
  have "action (after_action (Fulfilled (Object ''saved''))) = None \<or>
    (\<exists>a. action (after_action (Fulfilled (Object ''saved''))) = Some (Fulfilled a))"
    using action_precedes_loaders [of "after_action (Fulfilled (Object ''saved''))" example_runtime
        "navigation users_match"] len at
    by blast
  then show ?thesis
    using pending rejected run by simp
qed

text \<open>
  C9. The loader that compilation puts in for \<^verbatim>\<open>loader = true\<close> reads
  \<^verbatim>\<open>request.url\<close> of its argument, and the loading phase calls it with
  \<^verbatim>\<open>{url, splat, params, signal}\<close>, which has no \<^verbatim>\<open>request\<close>: the call throws a
  \<^verbatim>\<open>TypeError\<close>, the promise is rejected with it, and \<^verbatim>\<open>fetch\<close> is never called.
\<close>

theorem builtin_loader_gets_no_request:
  "ctx.request (loader_context m req) = None \<and>
   createLoaderPromise rt act (Fn (ConfigLoader pfx level)) m req =
     (case await_action act of
        Pending \<Rightarrow> ([], Pending)
      | Rejected e \<Rightarrow> ([AwaitedAction], Rejected e)
      | Fulfilled a \<Rightarrow>
          ([AwaitedAction, Invoke (ConfigLoader pfx level) (loader_context m req)],
           Rejected undefined_url))"
  by (simp add: createLoaderPromise_def await_loader_def createConfigLoader_def loader_context_def
      split: outcome.splits)

text \<open>The same for the route \<^verbatim>\<open>users\<close> with \<^verbatim>\<open>loader = true\<close>, from compilation to the
  loading phase of a navigation to \<^verbatim>\<open>/users?page=2\<close>.\<close>

lemma builtin_loader_fails_in_loading_phase:
  "fst (createConfig (example_scope True (Some users_route))) = Inr [users_config] \<and>
   createLoaders example_runtime users_render no_options =
     ([\<lparr>dirty = False, match = Match users_config [] [] None, promise = Rejected undefined_url,
        resource = Rejected undefined_url,
        controller = AbortController (AbortSignal ''navigation'')\<rparr>],
      [AwaitedAction,
       Invoke (ConfigLoader ''/api'' 0)
         \<lparr>ctx.request = None, ctx.url = Some \<lparr>pathname = ''/users'', search = ''?page=2''\<rparr>,
          ctx.splat = Some [], ctx.params = Some [], ctx.signal = Some (AbortSignal ''navigation'')\<rparr>])"
  by code_simp

text \<open>
  C10. Take a match with a loader for which a new entry is made, in a navigation without
  an action or with a fulfilled one, and let the loader settle to a value: it is a
  function of the application whose call, with \<^verbatim>\<open>{url, splat, params, signal}\<close>, gives
  the value, or it is the value itself, or a promise fulfilled with it. Then the promise
  of the new entry, from which its resource is made, settles to
  \<^verbatim>\<open>createData(response)\<close> if the value is a \<^verbatim>\<open>Response\<close>, and to the value itself,
  unchanged, if it is anything else; and the entry is among the results of
  \<^verbatim>\<open>createLoaders\<close>.
\<close>

theorem loader_result_stored:
  assumes "config_loader (match_config m) = Some ld" and "truthy_handler (Some ld)"
    and "\<not> (\<exists>e \<in> set (cached opts). \<not> dirty e \<and> isEquivalentMatch rt m (match e))"
    and "action opts = None \<or> (\<exists>a. action opts = Some (Fulfilled a))"
    and "(\<exists>name. ld = Fn (User name) \<and>
            call rt name
              \<lparr>ctx.request = None, ctx.url = Some (request.url (request rd)),
               ctx.splat = Some (match_splat m), ctx.params = Some (match_params m),
               ctx.signal = Some (request.signal (request rd))\<rparr> = Fulfilled v) \<or>
         ld = Value v \<or> ld = Promise (Fulfilled v)"
  shows "\<exists>entry. fst (loader_step rt rd opts m) = [entry] \<and>
           promise entry = (case v of Response r \<Rightarrow> createData rt r | _ \<Rightarrow> Fulfilled v) \<and>
           resource entry = createResource rt (promise entry) (scheduler opts) \<and>
           (m \<in> set (segments rd) \<longrightarrow> entry \<in> set (fst (createLoaders rt rd opts)))"
proof -
  have miss: "find_loader rt (loaders opts) m = None"
    using assms(3) find_loader_None [of rt opts m] by simp
  obtain a where act: "await_action (action opts) = Fulfilled a"
    using assms(4) by (auto simp: await_action_def)
  have awaited: "snd (await_loader rt ld m (request rd)) = Fulfilled v"
    using assms(5) by (auto simp: await_loader_def loader_context_def)
  have p: "snd (createLoaderPromise rt (action opts) ld m (request rd)) =
           (case v of Response r \<Rightarrow> createData rt r | _ \<Rightarrow> Fulfilled v)"
    using act awaited
    by (cases "await_loader rt ld m (request rd)") (simp add: createLoaderPromise_def)
  let ?entry = "\<lparr>dirty = False, match = m,
       promise = snd (createLoaderPromise rt (action opts) ld m (request rd)),
       resource = createResource rt
         (snd (createLoaderPromise rt (action opts) ld m (request rd))) (scheduler opts),
       controller = AbortController (request.signal (request rd))\<rparr>"
  have step: "fst (loader_step rt rd opts m) = [?entry]"
    using assms(1,2) miss by (simp add: loader_step_def split: prod.splits)
  have "?entry \<in> set (fst (createLoaders rt rd opts))" if "m \<in> set (segments rd)"
    using that step by (auto simp: createLoaders_segments intro!: bexI [of _ m])
  then show ?thesis
    using step p by simp
qed

text \<open>The theorem at a function that returns a \<^verbatim>\<open>Response\<close>, a function that returns
  an object, a loader that is the number 7, and a loader that is a promise of a
  \<^verbatim>\<open>Response\<close>.\<close>

theorem loader_result_stored_witness:
  "map promise (fst (loader_step example_runtime (navigation page_match) (with_cache []) page_match)) =
     [Fulfilled (Object ''{users: [ada, bob]}'')] \<and>
   map promise (fst (loader_step example_runtime (navigation users_match)
       (after_action (Fulfilled (Object ''saved''))) users_match)) =
     [Fulfilled (Object ''users'')] \<and>
   map promise (fst (createLoaders example_runtime (navigation (static_match (Value (Num 7))))
       (with_cache []))) = [Fulfilled (Num 7)] \<and>
   map promise (fst (createLoaders example_runtime
       (navigation (static_match (Promise (Fulfilled (Response users_response))))) (with_cache []))) =
     [Fulfilled (Object ''{users: [ada, bob]}'')]"
proof -
  have none: "\<not> (\<exists>e \<in> set (cached (with_cache [])). \<not> dirty e \<and> isEquivalentMatch example_runtime m (match e))"
      "\<not> (\<exists>e \<in> set (cached (after_action p)). \<not> dirty e \<and> isEquivalentMatch example_runtime m (match e))"
      for m p
    by (simp_all add: cached_def with_cache_def after_action_def)
  have act: "action (with_cache []) = None \<or> (\<exists>a. action (with_cache []) = Some (Fulfilled a))"
      "action (after_action (Fulfilled (Object ''saved''))) = None \<or>
       (\<exists>a. action (after_action (Fulfilled (Object ''saved''))) = Some (Fulfilled a))"
    by (simp_all add: with_cache_def after_action_def)
  have data: "createData example_runtime users_response = Fulfilled (Object ''{users: [ada, bob]}'')"
    by (simp add: example_runtime_def users_response_def)
  have ld: "config_loader (match_config page_match) = Some (Fn (User ''loadPage''))"
      "config_loader (match_config users_match) = Some (Fn (User ''loadUsers''))"
      "config_loader (match_config (static_match h)) = Some h" for h
    by (simp_all add: page_match_def users_match_def static_match_def)
  have calls: "call example_runtime ''loadPage'' c = Fulfilled (Response users_response)"
      "call example_runtime ''loadUsers'' c = Fulfilled (Object ''users'')" for c
    by (simp_all add: example_runtime_def)
  have page: "\<exists>entry. fst (loader_step example_runtime (navigation page_match) (with_cache []) page_match) = [entry] \<and>
      promise entry = Fulfilled (Object ''{users: [ada, bob]}'')"
    using loader_result_stored [where v = "Response users_response", OF ld(1) _ none(1) act(1),
        of "navigation page_match"] calls data
    by auto
  have users: "\<exists>entry. fst (loader_step example_runtime (navigation users_match)
         (after_action (Fulfilled (Object ''saved''))) users_match) = [entry] \<and>
      promise entry = Fulfilled (Object ''users'')"
    using loader_result_stored [where v = "Object ''users''", OF ld(2) _ none(2) act(2),
        of "navigation users_match"] calls
    by auto
  have seg: "segments (navigation (static_match h)) = [static_match h]" for h
    by (simp add: segments_def navigation_def static_match_def)
  have run: "createLoaders example_runtime (navigation (static_match h)) (with_cache []) =
      loader_step example_runtime (navigation (static_match h)) (with_cache []) (static_match h)" for h
    by (simp add: createLoaders_segments seg)
  have static: "\<exists>entry. fst (loader_step example_runtime (navigation (static_match (Value (Num 7))))
         (with_cache []) (static_match (Value (Num 7)))) = [entry] \<and>
      promise entry = Fulfilled (Num 7)"
    using loader_result_stored [where v = "Num 7", OF ld(3) _ none(1) act(1),
        of "Value (Num 7)" "navigation (static_match (Value (Num 7)))"]
    by auto
  have promised: "\<exists>entry. fst (loader_step example_runtime
         (navigation (static_match (Promise (Fulfilled (Response users_response)))))
         (with_cache []) (static_match (Promise (Fulfilled (Response users_response))))) = [entry] \<and>
      promise entry = Fulfilled (Object ''{users: [ada, bob]}'')"
    using loader_result_stored [where v = "Response users_response", OF ld(3) _ none(1) act(1),
        of "Promise (Fulfilled (Response users_response))"
           "navigation (static_match (Promise (Fulfilled (Response users_response))))"] data
    by auto
  show ?thesis
    using page users static promised unfolding run by auto
qed

end
